theory Spec2Isabelle
  imports Main "HOL-Library.Multiset"
begin

section \<open>The build graph\<close>

text \<open>
  Nodes, edges and rules live in the build graph and are referred to by pointer
  (\<open>Node*\<close>, \<open>Edge*\<close>, \<open>const Rule*\<close>).  A pointer is a handle (a natural number,
  ordered as addresses are), and the graph gives the fields behind each handle:
  \<open>Node::path()\<close>, \<open>Node::in_edge()\<close> (\<open>None\<close> for the null pointer),
  \<open>Edge::inputs_\<close>, \<open>Edge::rule()\<close>, \<open>Rule::name()\<close> and
  \<open>Edge::GetBinding("deps")\<close>.  The scanner only reads the graph.
\<close>

type_synonym node = nat
type_synonym edge = nat
type_synonym rule = nat

record graph =
  node_path :: "node \<Rightarrow> string"
  node_in_edge :: "node \<Rightarrow> edge option"
  edge_inputs :: "edge \<Rightarrow> node list"
  edge_rule :: "edge \<Rightarrow> rule"
  rule_name :: "rule \<Rightarrow> string"
  edge_deps_binding :: "edge \<Rightarrow> string"

text \<open>
  The recursions of the scanner have no bound of their own: on a cyclic graph
  \<open>PathExistsBetween\<close> calls itself for ever.  The model counts the depth of
  the recursion with fuel and returns \<open>OutOfFuel\<close> when it is used up.
  \<open>NullEdge\<close> is the dereference of a null \<open>Edge*\<close>.
\<close>

datatype error = OutOfFuel | NullEdge

section \<open>PathExistsBetween (missing_deps.cc, lines 168-188)\<close>

text \<open>
  \<open>adjacency_map\<close> is a map from the edge \<open>from\<close> to an inner map from the edge
  \<open>to\<close> to the cached answer.
\<close>

type_synonym AdjacencyMap = "edge \<rightharpoonup> (edge \<rightharpoonup> bool)"

text \<open>Lines 169-174: the look-up of the pair in the two levels of the map.\<close>

definition memo_find :: "AdjacencyMap \<Rightarrow> edge \<Rightarrow> edge \<Rightarrow> bool option" where
  "memo_find m from to = (case m from of None \<Rightarrow> None | Some inner \<Rightarrow> inner to)"

text \<open>
  Line 186: \<open>it->second.insert(std::make_pair(to, found))\<close>.  \<open>it\<close> is the entry
  of \<open>from\<close> in the outer map, which exists from line 176 on at the latest;
  \<open>insert\<close> keeps an entry that is already there.
\<close>

definition memo_insert :: "AdjacencyMap \<Rightarrow> edge \<Rightarrow> edge \<Rightarrow> bool \<Rightarrow> AdjacencyMap" where
  "memo_insert m from to found =
     (let inner = (case m from of None \<Rightarrow> Map.empty | Some i \<Rightarrow> i)
      in if inner to = None then m(from \<mapsto> inner(to \<mapsto> found)) else m)"

text \<open>
  \<open>PathExistsBetween\<close> returns the new memo with the answer.  \<open>scan_inputs\<close> is
  the loop of lines 179-185 over the rest of \<open>to->inputs_\<close>; it leaves with
  \<open>True\<close> at the first input that has \<open>from\<close> behind it.
\<close>

fun PathExistsBetween ::
    "nat \<Rightarrow> graph \<Rightarrow> AdjacencyMap \<Rightarrow> edge \<Rightarrow> edge \<Rightarrow> error + (AdjacencyMap \<times> bool)"
and scan_inputs ::
    "nat \<Rightarrow> graph \<Rightarrow> AdjacencyMap \<Rightarrow> edge \<Rightarrow> node list \<Rightarrow> error + (AdjacencyMap \<times> bool)"
where
  "PathExistsBetween fuel g m from to =
     (case memo_find m from to of
        Some b \<Rightarrow> Inr (m, b)
      | None \<Rightarrow>
         (case fuel of
            0 \<Rightarrow> Inl OutOfFuel
          | Suc k \<Rightarrow>
             (case scan_inputs k g (if m from = None then m(from \<mapsto> Map.empty) else m)
                     from (edge_inputs g to) of
                Inl err \<Rightarrow> Inl err
              | Inr (m1, found) \<Rightarrow> Inr (memo_insert m1 from to found, found))))"
| "scan_inputs k g m from [] = Inr (m, False)"
| "scan_inputs k g m from (input # rest) =
     (case node_in_edge g input of
        None \<Rightarrow> scan_inputs k g m from rest
      | Some e \<Rightarrow>
         if e = from then Inr (m, True)
         else (case PathExistsBetween k g m from e of
                 Inl err \<Rightarrow> Inl err
               | Inr (m1, b) \<Rightarrow>
                   if b then Inr (m1, True) else scan_inputs k g m1 from rest))"

declare PathExistsBetween.simps [simp del]

subsection \<open>The definition of reachability\<close>

text \<open>
  Reachability as the specification words it: \<open>reachable from to\<close> holds iff
  some direct input of \<open>to\<close> has a producing edge \<open>e\<close> with \<open>e = from\<close> or
  \<open>reachable from e\<close>.
\<close>

inductive reachable :: "graph \<Rightarrow> edge \<Rightarrow> edge \<Rightarrow> bool" for g :: graph and "from" :: edge where
  direct: "input \<in> set (edge_inputs g to) \<Longrightarrow> node_in_edge g input = Some from
           \<Longrightarrow> reachable g from to"
| via: "input \<in> set (edge_inputs g to) \<Longrightarrow> node_in_edge g input = Some e
        \<Longrightarrow> reachable g from e \<Longrightarrow> reachable g from to"

text \<open>
  The same definition computed afresh, with no memo: a recursion over the
  inputs of \<open>to\<close>, again with fuel for its depth.
\<close>

fun reachable_fresh :: "nat \<Rightarrow> graph \<Rightarrow> edge \<Rightarrow> edge \<Rightarrow> bool option"
and some_input_reaches :: "nat \<Rightarrow> graph \<Rightarrow> edge \<Rightarrow> node list \<Rightarrow> bool option"
where
  "reachable_fresh 0 g from to = None"
| "reachable_fresh (Suc k) g from to = some_input_reaches k g from (edge_inputs g to)"
| "some_input_reaches k g from [] = Some False"
| "some_input_reaches k g from (input # rest) =
     (case node_in_edge g input of
        None \<Rightarrow> some_input_reaches k g from rest
      | Some e \<Rightarrow>
         if e = from then Some True
         else (case reachable_fresh k g from e of
                 None \<Rightarrow> None
               | Some b \<Rightarrow> if b then Some True else some_input_reaches k g from rest))"

text \<open>
  The graph is acyclic when the edges can be ranked so that the producing edge
  of every input of an edge has a smaller rank than the edge.
\<close>

definition acyclic_by :: "graph \<Rightarrow> (edge \<Rightarrow> nat) \<Rightarrow> bool" where
  "acyclic_by g rank \<longleftrightarrow>
     (\<forall>e. \<forall>input \<in> set (edge_inputs g e). \<forall>e'.
        node_in_edge g input = Some e' \<longrightarrow> rank e' < rank e)"

text \<open>A memo is consistent when each of its entries is the answer of the definition.\<close>

definition memo_consistent :: "graph \<Rightarrow> AdjacencyMap \<Rightarrow> bool" where
  "memo_consistent g m \<longleftrightarrow>
     (\<forall>from to b. memo_find m from to = Some b \<longrightarrow> b = reachable g from to)"

text \<open>
  The memos of a scan: the empty memo of a new session, and the memo any call
  of \<open>PathExistsBetween\<close> on a memo of the scan returns.
\<close>

inductive session_memo :: "graph \<Rightarrow> AdjacencyMap \<Rightarrow> bool" for g :: graph where
  fresh: "session_memo g Map.empty"
| call: "session_memo g m \<Longrightarrow> PathExistsBetween fuel g m from to = Inr (m', b)
         \<Longrightarrow> session_memo g m'"

section \<open>The scan session\<close>

text \<open>
  The fields of \<open>MissingDependencyScanner\<close>.  \<open>deps_log\<close> is the contents of the
  dependency log the scanner points to: \<open>GetDeps(node)\<close> is the look-up, \<open>None\<close>
  for a node with no record.  \<open>reports\<close> is the sequence of \<open>OnMissingDep\<close> calls
  the delegate has received (consumer node, dependency path, generating rule).
  \<open>classified\<close> is a history variable that is never read: it lists the nodes
  for which lines 90-104 have run, in order.  \<open>missing_dep_path_count_\<close> is a
  C++ \<open>int\<close> of 32 bits, kept as the integer it stands for.
\<close>

record scanner =
  seen :: "node set"
  nodes_missing_deps :: "node set"
  generated_nodes :: "node set"
  generator_rules :: "rule set"
  missing_dep_path_count :: int
  adjacency_map :: AdjacencyMap
  deps_log :: "node \<rightharpoonup> node list"
  reports :: "(node \<times> string \<times> rule) list"
  classified :: "node list"

text \<open>The constructor (lines 71-75), for a given dependency log.\<close>

definition MissingDependencyScanner :: "(node \<rightharpoonup> node list) \<Rightarrow> scanner" where
  "MissingDependencyScanner log =
     \<lparr>seen = {}, nodes_missing_deps = {}, generated_nodes = {}, generator_rules = {},
      missing_dep_path_count = 0, adjacency_map = Map.empty, deps_log = log,
      reports = [], classified = []\<rparr>"

text \<open>
  Modelled from the spec: \<open>HadMissingDeps\<close> is defined in missing_deps.h, which is
  not among the sources.  The specification (4.1): it is true iff the
  nodes-with-gaps set is non-empty.
\<close>

definition HadMissingDeps :: "scanner \<Rightarrow> bool" where
  "HadMissingDeps s \<longleftrightarrow> nodes_missing_deps s \<noteq> {}"

section \<open>ProcessNodeDeps (lines 107-148)\<close>

text \<open>
  Lines 110-125.  \<open>deplog_edges\<close> is a \<open>std::set<Edge*>\<close>, kept as the sorted list
  of its elements, the order in which line 127 walks it.  \<open>None\<close> is the
  \<open>return\<close> of line 120.
\<close>

fun collect_deplog_edges :: "graph \<Rightarrow> node list \<Rightarrow> edge list \<Rightarrow> edge list option" where
  "collect_deplog_edges g [] deplog_edges = Some deplog_edges"
| "collect_deplog_edges g (deplog_node # rest) deplog_edges =
     (if node_path g deplog_node = ''build.ninja'' then None
      else (case node_in_edge g deplog_node of
              Some deplog_edge \<Rightarrow>
                collect_deplog_edges g rest (insort_insert deplog_edge deplog_edges)
            | None \<Rightarrow> collect_deplog_edges g rest deplog_edges))"

text \<open>Lines 126-131: the edges of \<open>deplog_edges\<close> with no path to \<open>edge\<close>, in order.\<close>

fun find_missing_deps ::
    "nat \<Rightarrow> graph \<Rightarrow> AdjacencyMap \<Rightarrow> edge list \<Rightarrow> edge \<Rightarrow> error + (AdjacencyMap \<times> edge list)"
where
  "find_missing_deps fuel g m [] edge = Inr (m, [])"
| "find_missing_deps fuel g m (de # rest) edge =
     (case PathExistsBetween fuel g m de edge of
        Inl err \<Rightarrow> Inl err
      | Inr (m1, found) \<Rightarrow>
          (case find_missing_deps fuel g m1 rest edge of
             Inl err \<Rightarrow> Inl err
           | Inr (m2, missing_deps) \<Rightarrow>
               Inr (m2, if found then missing_deps else de # missing_deps)))"

text \<open>
  Lines 136-143, the inner loop for one missing edge \<open>item\<close> over the rest of
  the dependency array; the second component is \<open>missing_deps_rule_names\<close>.
\<close>

fun report_item ::
    "graph \<Rightarrow> node \<Rightarrow> edge \<Rightarrow> node list \<Rightarrow> scanner \<times> string set \<Rightarrow> scanner \<times> string set"
where
  "report_item g node item [] acc = acc"
| "report_item g node item (dep # rest) (s, names) =
     (if node_in_edge g dep = Some item
      then report_item g node item rest
             (s\<lparr>generated_nodes := insert dep (generated_nodes s),
                generator_rules := insert (edge_rule g item) (generator_rules s),
                reports := reports s @ [(node, node_path g dep, edge_rule g item)]\<rparr>,
              insert (rule_name g (edge_rule g item)) names)
      else report_item g node item rest (s, names))"

text \<open>Lines 135-144, the outer loop over \<open>missing_deps\<close>.\<close>

fun report_missing ::
    "graph \<Rightarrow> node \<Rightarrow> edge list \<Rightarrow> node list \<Rightarrow> scanner \<times> string set \<Rightarrow> scanner \<times> string set"
where
  "report_missing g node [] dep_nodes acc = acc"
| "report_missing g node (item # rest) dep_nodes acc =
     report_missing g node rest dep_nodes (report_item g node item dep_nodes acc)"

text \<open>
  Line 145 adds a \<open>size_t\<close> to the \<open>int\<close> counter: the sum is formed in
  \<open>size_t\<close> and converted back to \<open>int\<close>, which keeps its low 32 bits as a
  signed number.  \<open>int32_wrap\<close> is that conversion.
\<close>

definition int32_wrap :: "int \<Rightarrow> int" where
  "int32_wrap x = (x + 2147483648) mod 4294967296 - 2147483648"

text \<open>
  The whole function.  \<open>edge\<close> of line 109 may be null; it is dereferenced by
  the first call of line 128, that is when \<open>deplog_edges\<close> is not empty.
\<close>

definition ProcessNodeDeps :: "nat \<Rightarrow> graph \<Rightarrow> scanner \<Rightarrow> node \<Rightarrow> node list \<Rightarrow> error + scanner" where
  "ProcessNodeDeps fuel g s node dep_nodes =
     (case collect_deplog_edges g dep_nodes [] of
        None \<Rightarrow> Inr s
      | Some deplog_edges \<Rightarrow>
          if deplog_edges = [] then Inr s
          else (case node_in_edge g node of
                  None \<Rightarrow> Inl NullEdge
                | Some edge \<Rightarrow>
                   (case find_missing_deps fuel g (adjacency_map s) deplog_edges edge of
                      Inl err \<Rightarrow> Inl err
                    | Inr (m, missing_deps) \<Rightarrow>
                        if missing_deps = [] then Inr (s\<lparr>adjacency_map := m\<rparr>)
                        else (case report_missing g node missing_deps dep_nodes
                                     (s\<lparr>adjacency_map := m\<rparr>, {}) of
                                (s1, missing_deps_rule_names) \<Rightarrow>
                                  Inr (s1\<lparr>missing_dep_path_count :=
                                            int32_wrap (missing_dep_path_count s1
                                              + int (card missing_deps_rule_names)),
                                          nodes_missing_deps :=
                                            insert node (nodes_missing_deps s1)\<rparr>)))))"

section \<open>The depfile loader (lines 28-61)\<close>

text \<open>
  What the scanner reads outside the graph: \<open>CanonicalizePath\<close> (util.cc),
  \<open>State::GetNode\<close> (the node of a canonical path; a node it has to create has
  no producing edge and is an input of no edge), and for each edge the list of
  inputs its depfile names, \<open>None\<close> when there is no depfile to read or it does
  not parse.
\<close>

record env =
  CanonicalizePath :: "string \<Rightarrow> string"
  GetNode :: "string \<Rightarrow> node"
  depfile_ins :: "edge \<Rightarrow> string list option"

text \<open>
  \<open>NodeStoringImplicitDepLoader::ProcessDepfileDeps\<close>, lines 50-59: each item is
  canonicalized, looked up and pushed onto \<open>dep_nodes_output_\<close>.  The result is
  the return value and the output vector.
\<close>

fun ProcessDepfileDeps :: "env \<Rightarrow> edge \<Rightarrow> string list \<Rightarrow> node list \<Rightarrow> bool \<times> node list" where
  "ProcessDepfileDeps env edge [] dep_nodes_output = (True, dep_nodes_output)"
| "ProcessDepfileDeps env edge (item # rest) dep_nodes_output =
     ProcessDepfileDeps env edge rest
       (dep_nodes_output @ [GetNode env (CanonicalizePath env item)])"

text \<open>
  Modelled from the spec: \<open>ImplicitDepLoader::LoadDeps\<close> is defined in graph.cc,
  which is not among the sources.  The specification (4.1, 6, 7): the adapter
  attempts to parse the on-disk depfile of the edge; a failure is reported as
  a local error, is not fatal and yields an empty dependency set; otherwise the
  raw dependency paths go through the canonicalization step, here
  \<open>ProcessDepfileDeps\<close>.
\<close>

definition LoadDeps :: "env \<Rightarrow> edge \<Rightarrow> node list \<Rightarrow> bool \<times> node list" where
  "LoadDeps env edge dep_nodes_output =
     (case depfile_ins env edge of
        None \<Rightarrow> (False, dep_nodes_output)
      | Some ins \<Rightarrow> ProcessDepfileDeps env edge ins dep_nodes_output)"

section \<open>ProcessNode (lines 77-105)\<close>

text \<open>Lines 90-104: the dependency set of the node, from the log or from the depfile.\<close>

definition classify_deps :: "nat \<Rightarrow> graph \<Rightarrow> env \<Rightarrow> scanner \<Rightarrow> node \<Rightarrow> edge \<Rightarrow> error + scanner" where
  "classify_deps fuel g env s node edge =
     (let s0 = s\<lparr>classified := classified s @ [node]\<rparr>
      in if edge_deps_binding g edge \<noteq> []
         then (case deps_log s0 node of
                 None \<Rightarrow> Inr s0
               | Some deps \<Rightarrow> ProcessNodeDeps fuel g s0 node deps)
         else (case LoadDeps env edge [] of
                 (ok, depfile_deps) \<Rightarrow>
                   if depfile_deps \<noteq> [] then ProcessNodeDeps fuel g s0 node depfile_deps
                   else Inr s0))"

text \<open>
  \<open>ProcessNode\<close> takes a \<open>Node*\<close> that may be null.  \<open>ProcessInputs\<close> is the loop
  of lines 86-88.  The fuel bounds the depth of the recursion and is asked for
  only where the function calls itself.
\<close>

fun ProcessNode :: "nat \<Rightarrow> graph \<Rightarrow> env \<Rightarrow> scanner \<Rightarrow> node option \<Rightarrow> error + scanner"
and ProcessInputs :: "nat \<Rightarrow> graph \<Rightarrow> env \<Rightarrow> scanner \<Rightarrow> node list \<Rightarrow> error + scanner"
where
  "ProcessNode fuel g env s None = Inr s"
| "ProcessNode fuel g env s (Some node) =
     (case node_in_edge g node of
        None \<Rightarrow> Inr s
      | Some edge \<Rightarrow>
          if node \<in> seen s then Inr s
          else (case fuel of
                  0 \<Rightarrow> Inl OutOfFuel
                | Suc k \<Rightarrow>
                    (case ProcessInputs k g env (s\<lparr>seen := insert node (seen s)\<rparr>)
                            (edge_inputs g edge) of
                       Inl err \<Rightarrow> Inl err
                     | Inr s1 \<Rightarrow> classify_deps (Suc k) g env s1 node edge)))"
| "ProcessInputs k g env s [] = Inr s"
| "ProcessInputs k g env s (input # rest) =
     (case ProcessNode k g env s (Some input) of
        Inl err \<Rightarrow> Inl err
      | Inr s1 \<Rightarrow> ProcessInputs k g env s1 rest)"

declare ProcessNode.simps(2) [simp del]

section \<open>PrintStats (lines 150-166)\<close>

text \<open>The decimal digits \<open>operator<<\<close> writes for a number.\<close>

fun show_nat :: "nat \<Rightarrow> string" where
  "show_nat n =
     (if n < 10 then [''0123456789'' ! n]
      else show_nat (n div 10) @ [''0123456789'' ! (n mod 10)])"

declare show_nat.simps [simp del]

definition show_int :: "int \<Rightarrow> string" where
  "show_int i = (if i < 0 then CHR ''-'' # show_nat (nat (- i)) else show_nat (nat i))"

text \<open>The text \<open>PrintStats\<close> writes to \<open>std::cout\<close>.\<close>

definition PrintStats :: "scanner \<Rightarrow> string" where
  "PrintStats s =
     ''Processed '' @ show_nat (card (seen s)) @ '' nodes.'' @ [CHR 0x0A]
     @ (if HadMissingDeps s
        then ''Error: There are '' @ show_int (missing_dep_path_count s)
             @ '' missing dependency paths.'' @ [CHR 0x0A]
             @ show_nat (card (nodes_missing_deps s))
             @ '' targets had depfile dependencies on ''
             @ show_nat (card (generated_nodes s)) @ '' distinct generated inputs ''
             @ ''(from '' @ show_nat (card (generator_rules s)) @ '' rules) ''
             @ '' without a non-depfile dep path to the generator.'' @ [CHR 0x0A]
             @ ''There might be build flakiness if any of the targets listed ''
             @ ''above are built alone, or not late enough, in a clean output ''
             @ ''directory.'' @ [CHR 0x0A]
        else ''No missing dependencies on generated files found.'' @ [CHR 0x0A])"

section \<open>The stat cache\<close>

text \<open>
  A \<open>FileStat*\<close> is a handle; \<open>heap\<close> gives the object behind it and \<open>next_ptr\<close>
  is the address the next \<open>new\<close> returns.  \<open>paths\<close> holds the entries of the
  hash map \<open>paths_\<close> in the order its iterator walks them.  The keys are C
  strings, compared by content: a key ends before the first NUL.
\<close>

type_synonym fileptr = nat

record FileStat =
  file_path :: string
  file_mtime :: int
  file_node :: "node option"

record StatCache =
  paths :: "(string \<times> fileptr) list"
  heap :: "fileptr \<Rightarrow> FileStat"
  next_ptr :: fileptr

definition c_str :: "string \<Rightarrow> string" where
  "c_str s = takeWhile (\<lambda>c. c \<noteq> CHR 0x00) s"

text \<open>
  \<open>StatCache::GetFile\<close>.  The constructor \<open>FileStat(path)\<close> is declared in the
  header; \<open>blank\<close> stands for the values it gives the other fields.
\<close>

definition GetFile :: "FileStat \<Rightarrow> StatCache \<Rightarrow> string \<Rightarrow> fileptr \<times> StatCache" where
  "GetFile blank c path =
     (case map_of (paths c) (c_str path) of
        Some file \<Rightarrow> (file, c)
      | None \<Rightarrow>
          (let file = next_ptr c; obj = blank\<lparr>file_path := path\<rparr>
           in (file, c\<lparr>paths := (c_str (file_path obj), file) # paths c,
                       heap := (heap c)(file := obj),
                       next_ptr := Suc file\<rparr>)))"

text \<open>
  \<open>StatCache::SpellcheckFile\<close>.  \<open>EditDistance\<close> (edit_distance.cc) is a
  parameter.  \<open>spellcheck_loop\<close> is the loop of lines 37-44 with the locals
  \<open>min_distance\<close> and \<open>result\<close>; \<open>None\<close> is \<open>NULL\<close>.
\<close>

definition kAllowReplacements :: bool where
  "kAllowReplacements = True"

definition kMaxValidEditDistance :: int where
  "kMaxValidEditDistance = 3"

fun spellcheck_loop ::
    "(string \<Rightarrow> string \<Rightarrow> bool \<Rightarrow> int \<Rightarrow> int) \<Rightarrow> (fileptr \<Rightarrow> FileStat) \<Rightarrow> string
     \<Rightarrow> (string \<times> fileptr) list \<Rightarrow> int \<Rightarrow> fileptr option \<Rightarrow> fileptr option"
where
  "spellcheck_loop EditDistance h path [] min_distance result = result"
| "spellcheck_loop EditDistance h path ((key, file) # rest) min_distance result =
     (let distance = EditDistance key path kAllowReplacements kMaxValidEditDistance
      in if distance < min_distance \<and> file_node (h file) \<noteq> None
         then spellcheck_loop EditDistance h path rest distance (Some file)
         else spellcheck_loop EditDistance h path rest min_distance result)"

definition SpellcheckFile ::
    "(string \<Rightarrow> string \<Rightarrow> bool \<Rightarrow> int \<Rightarrow> int) \<Rightarrow> StatCache \<Rightarrow> string \<Rightarrow> fileptr option"
where
  "SpellcheckFile EditDistance c path =
     spellcheck_loop EditDistance (heap c) path (paths c) (kMaxValidEditDistance + 1) None"

section \<open>Auxiliary definitions and a small build graph\<close>

text \<open>Some node of a list of inputs has \<open>from\<close>, or an edge reachable from it, behind it.\<close>

definition reaches_via :: "graph \<Rightarrow> edge \<Rightarrow> node list \<Rightarrow> bool" where
  "reaches_via g from ns \<longleftrightarrow>
     (\<exists>input \<in> set ns. \<exists>e. node_in_edge g input = Some e \<and> (e = from \<or> reachable g from e))"

text \<open>
  The graph of the real-gap scenario: edge 0 (A) makes a.h (node 0); edge 1 (B)
  reads a.h and makes b.o (node 1); edge 2 (C) reads the source c.c (node 4)
  and makes c.o (node 2); its depfile names b.o.  Node 3 is build.ninja, made
  by no edge.  Edge 3 (D) makes d.o (node 5) from nothing.  A has rule 0,
  B and D have rule 1, C has rule 2.
\<close>

definition gap_graph :: graph where
  "gap_graph =
     \<lparr>node_path = (\<lambda>n. if n = 0 then ''a.h'' else if n = 1 then ''b.o''
                        else if n = 2 then ''c.o'' else if n = 3 then ''build.ninja''
                        else if n = 5 then ''d.o'' else ''c.c''),
      node_in_edge = (\<lambda>n. if n = 0 then Some 0 else if n = 1 then Some 1
                           else if n = 2 then Some 2 else if n = 5 then Some 3 else None),
      edge_inputs = (\<lambda>e. if e = 1 then [0] else if e = 2 then [4] else []),
      edge_rule = (\<lambda>e. if e = 0 then 0 else if e = 1 \<or> e = 3 then 1 else 2),
      rule_name = (\<lambda>r. if r = 0 then ''gen'' else if r = 1 then ''cc'' else ''link''),
      edge_deps_binding = (\<lambda>e. [])\<rparr>"

definition gap_env :: env where
  "gap_env =
     \<lparr>CanonicalizePath = (\<lambda>p. p),
      GetNode = (\<lambda>p. if p = ''a.h'' then 0 else if p = ''b.o'' then 1
                      else if p = ''c.o'' then 2 else if p = ''build.ninja'' then 3
                      else if p = ''d.o'' then 5 else 4),
      depfile_ins = (\<lambda>e. if e = 2 then Some [''b.o''] else None)\<rparr>"


text \<open>A new session with an empty dependency log.\<close>

definition gap_session :: scanner where
  "gap_session = MissingDependencyScanner Map.empty"

text \<open>A session whose problem count has reached the largest \<open>int\<close>.\<close>

definition overflow_session :: scanner where
  "overflow_session = gap_session\<lparr>missing_dep_path_count := 2147483647\<rparr>"

text \<open>The problem count at the end of a run.\<close>

definition count_of :: "error + scanner \<Rightarrow> int" where
  "count_of r = (case r of Inl err \<Rightarrow> 0 | Inr s \<Rightarrow> missing_dep_path_count s)"

text \<open>The calls the delegate has received at the end of a run, none if it failed.\<close>

definition reports_of :: "error + scanner \<Rightarrow> (node \<times> string \<times> rule) list" where
  "reports_of r = (case r of Inl err \<Rightarrow> [] | Inr s \<Rightarrow> reports s)"

definition stats_of :: "error + scanner \<Rightarrow> string" where
  "stats_of r = (case r of Inl err \<Rightarrow> [] | Inr s \<Rightarrow> PrintStats s)"

text \<open>
  The producing edges of the nodes of a dependency array, and those of them
  with no path to \<open>edge\<close>: the missing-dependency edges.
\<close>

definition producers :: "graph \<Rightarrow> node list \<Rightarrow> edge set" where
  "producers g dep_nodes = {e. \<exists>d \<in> set dep_nodes. node_in_edge g d = Some e}"

definition missing_edges :: "graph \<Rightarrow> edge \<Rightarrow> node list \<Rightarrow> edge set" where
  "missing_edges g edge dep_nodes = {e \<in> producers g dep_nodes. \<not> reachable g e edge}"

text \<open>The report of line 141 for one missing edge and one entry of the array.\<close>

definition item_reports :: "graph \<Rightarrow> node \<Rightarrow> edge \<Rightarrow> node \<Rightarrow> (node \<times> string \<times> rule) list" where
  "item_reports g node item dep =
     (if node_in_edge g dep = Some item then [(node, node_path g dep, edge_rule g item)] else [])"

text \<open>
  The entries of the dependency array whose producing edge is missing, each
  with that edge, in the order of the array and as often as the array lists
  them; and the report due for each.
\<close>

definition missing_dep_entries :: "graph \<Rightarrow> edge \<Rightarrow> node list \<Rightarrow> (node \<times> edge) list" where
  "missing_dep_entries g edge dep_nodes =
     concat (map (\<lambda>dep. case node_in_edge g dep of
                          None \<Rightarrow> []
                        | Some e \<Rightarrow> if reachable g e edge then [] else [(dep, e)]) dep_nodes)"

definition expected_reports ::
    "graph \<Rightarrow> node \<Rightarrow> edge \<Rightarrow> node list \<Rightarrow> (node \<times> string \<times> rule) list" where
  "expected_reports g node edge dep_nodes =
     map (\<lambda>(dep, e). (node, node_path g dep, edge_rule g e)) (missing_dep_entries g edge dep_nodes)"



text \<open>
  How a session may change over calls of \<open>ProcessNode\<close>: the dependency log
  stays, the visited set grows, and the nodes classified since are new,
  pairwise different, and visited.
\<close>

definition session_grows :: "scanner \<Rightarrow> scanner \<Rightarrow> bool" where
  "session_grows s s' \<longleftrightarrow>
     deps_log s' = deps_log s \<and> seen s \<subseteq> seen s'
     \<and> (\<exists>new. classified s' = classified s @ new \<and> distinct new
            \<and> set new \<inter> seen s = {} \<and> set new \<subseteq> seen s')"

text \<open>
  The states of a scan session: the scanner as constructed, and the state any
  call of \<open>ProcessNode\<close> on a state of the session returns.
\<close>

inductive scan_session :: "graph \<Rightarrow> env \<Rightarrow> scanner \<Rightarrow> bool" for g :: graph and env :: env where
  constructed: "scan_session g env (MissingDependencyScanner log)"
| processed: "scan_session g env s \<Longrightarrow> ProcessNode fuel g env s n = Inr s'
              \<Longrightarrow> scan_session g env s'"

text \<open>Two small stat caches, and a stand-in for \<open>EditDistance\<close>: the number of
  positions at which two strings differ, capped above the maximum.\<close>

definition blank_stat :: FileStat where
  "blank_stat = \<lparr>file_path = [], file_mtime = - 1, file_node = None\<rparr>"

definition cache0 :: StatCache where
  "cache0 = \<lparr>paths = [], heap = (\<lambda>p. blank_stat), next_ptr = 0\<rparr>"

definition cache2 :: StatCache where
  "cache2 =
     \<lparr>paths = [(''foo.cc'', 0), (''bar.cc'', 1), (''fop.cc'', 2)],
      heap = (\<lambda>p. if p = 0
                   then \<lparr>file_path = ''foo.cc'', file_mtime = - 1, file_node = Some 7\<rparr>
                   else if p = 1
                   then \<lparr>file_path = ''bar.cc'', file_mtime = - 1, file_node = Some 8\<rparr>
                   else \<lparr>file_path = ''fop.cc'', file_mtime = - 1, file_node = None\<rparr>),
      next_ptr = 3\<rparr>"

fun mismatches :: "string \<Rightarrow> string \<Rightarrow> int" where
  "mismatches [] ys = int (length ys)"
| "mismatches xs [] = int (length xs)"
| "mismatches (x # xs) (y # ys) = (if x = y then 0 else 1) + mismatches xs ys"

definition capped_mismatches :: "string \<Rightarrow> string \<Rightarrow> bool \<Rightarrow> int \<Rightarrow> int" where
  "capped_mismatches a b allow_replacements max_edit_distance =
     min (mismatches a b) (max_edit_distance + 1)"

section \<open>Reachability and the memo\<close>


lemma reachable_unfold:
  "reachable g from to \<longleftrightarrow>
     (\<exists>input \<in> set (edge_inputs g to). \<exists>e. node_in_edge g input = Some e
        \<and> (e = from \<or> reachable g from e))"
proof
  assume "reachable g from to"
  then show "\<exists>input \<in> set (edge_inputs g to). \<exists>e. node_in_edge g input = Some e
        \<and> (e = from \<or> reachable g from e)"
    by (cases rule: reachable.cases) blast+
next
  assume "\<exists>input \<in> set (edge_inputs g to). \<exists>e. node_in_edge g input = Some e
        \<and> (e = from \<or> reachable g from e)"
  then show "reachable g from to"
    by (blast intro: reachable.intros)
qed


lemma reaches_via_Nil [simp]: "\<not> reaches_via g from []"
  by (simp add: reaches_via_def)

lemma reaches_via_Cons:
  "reaches_via g from (n # ns) \<longleftrightarrow>
     (case node_in_edge g n of None \<Rightarrow> reaches_via g from ns
      | Some e \<Rightarrow> e = from \<or> reachable g from e \<or> reaches_via g from ns)"
  by (auto simp: reaches_via_def split: option.splits)

lemma reachable_reaches_via: "reachable g from to = reaches_via g from (edge_inputs g to)"
  unfolding reaches_via_def by (rule reachable_unfold)

lemma memo_consistent_empty: "memo_consistent g Map.empty"
  by (simp add: memo_consistent_def memo_find_def)

lemma memo_consistent_open:
  "memo_consistent g m \<Longrightarrow> memo_consistent g (if m from = None then m(from \<mapsto> Map.empty) else m)"
  by (auto simp: memo_consistent_def memo_find_def split: option.splits if_splits)

lemma memo_consistent_insert:
  "memo_consistent g m \<Longrightarrow> found = reachable g from to
   \<Longrightarrow> memo_consistent g (memo_insert m from to found)"
  by (auto simp: memo_consistent_def memo_find_def memo_insert_def Let_def
      split: option.splits if_splits)

lemma scan_inputs_correct:
  assumes peb: "\<And>m e. memo_consistent g m \<Longrightarrow> rank e < k \<Longrightarrow>
            \<exists>m'. PathExistsBetween k g m from e = Inr (m', reachable g from e)
              \<and> memo_consistent g m'"
  shows "memo_consistent g m
    \<Longrightarrow> \<forall>n \<in> set ns. \<forall>e. node_in_edge g n = Some e \<longrightarrow> rank e < k
    \<Longrightarrow> \<exists>m'. scan_inputs k g m from ns = Inr (m', reaches_via g from ns)
          \<and> memo_consistent g m'"
proof (induction ns arbitrary: m)
  case Nil
  then show ?case by simp
next
  case (Cons n ns)
  show ?case
  proof (cases "node_in_edge g n")
    case None
    with Cons show ?thesis by (simp add: reaches_via_Cons)
  next
    case (Some e)
    show ?thesis
    proof (cases "e = from")
      case True
      with Some Cons.prems show ?thesis by (simp add: reaches_via_Cons)
    next
      case False
      from Cons.prems Some have "rank e < k" by simp
      from peb [OF Cons.prems(1) this] obtain m1 where
        m1: "PathExistsBetween k g m from e = Inr (m1, reachable g from e)"
        and c1: "memo_consistent g m1" by blast
      show ?thesis
      proof (cases "reachable g from e")
        case True
        with Some False m1 c1 show ?thesis by (simp add: reaches_via_Cons)
      next
        case nr: False
        from Cons.prems have "\<forall>n \<in> set ns. \<forall>e. node_in_edge g n = Some e \<longrightarrow> rank e < k"
          by simp
        from Cons.IH [OF c1 this] obtain m' where
          "scan_inputs k g m1 from ns = Inr (m', reaches_via g from ns)"
          "memo_consistent g m'" by blast
        with Some False m1 nr show ?thesis by (simp add: reaches_via_Cons)
      qed
    qed
  qed
qed

lemma PathExistsBetween_correct:
  assumes ac: "acyclic_by g rank"
  shows "memo_consistent g m \<Longrightarrow> rank to < fuel
    \<Longrightarrow> \<exists>m'. PathExistsBetween fuel g m from to = Inr (m', reachable g from to)
          \<and> memo_consistent g m'"
proof (induction fuel arbitrary: m to)
  case 0
  then show ?case by simp
next
  case (Suc k)
  show ?case
  proof (cases "memo_find m from to")
    case (Some b)
    with Suc.prems(1) have "b = reachable g from to" by (simp add: memo_consistent_def)
    with Some Suc.prems(1) show ?thesis by (simp add: PathExistsBetween.simps)
  next
    case None
    let ?m0 = "if m from = None then m(from \<mapsto> Map.empty) else m"
    have c0: "memo_consistent g ?m0" using Suc.prems(1) by (rule memo_consistent_open)
    have bound: "\<forall>n \<in> set (edge_inputs g to). \<forall>e. node_in_edge g n = Some e \<longrightarrow> rank e < k"
      using ac Suc.prems(2) unfolding acyclic_by_def by (meson less_Suc_eq_le less_le_trans)
    have "\<exists>m'. scan_inputs k g ?m0 from (edge_inputs g to)
              = Inr (m', reaches_via g from (edge_inputs g to)) \<and> memo_consistent g m'"
      using Suc.IH c0 bound by (rule scan_inputs_correct)
    then obtain m1 where
      m1: "scan_inputs k g ?m0 from (edge_inputs g to) = Inr (m1, reachable g from to)"
      and c1: "memo_consistent g m1"
      by (auto simp: reachable_reaches_via)
    have "memo_consistent g (memo_insert m1 from to (reachable g from to))"
      using c1 by (simp add: memo_consistent_insert)
    with None m1 show ?thesis by (simp add: PathExistsBetween.simps)
  qed
qed

lemma some_input_reaches_correct:
  assumes rf: "\<And>e. rank e < k \<Longrightarrow> reachable_fresh k g from e = Some (reachable g from e)"
  shows "\<forall>n \<in> set ns. \<forall>e. node_in_edge g n = Some e \<longrightarrow> rank e < k
    \<Longrightarrow> some_input_reaches k g from ns = Some (reaches_via g from ns)"
proof (induction ns)
  case Nil
  then show ?case by simp
next
  case (Cons n ns)
  then show ?case
    by (cases "node_in_edge g n") (auto simp: reaches_via_Cons rf)
qed

lemma reachable_fresh_correct:
  assumes ac: "acyclic_by g rank"
  shows "rank to < fuel \<Longrightarrow> reachable_fresh fuel g from to = Some (reachable g from to)"
proof (induction fuel arbitrary: to)
  case 0
  then show ?case by simp
next
  case (Suc k)
  have bound: "\<forall>n \<in> set (edge_inputs g to). \<forall>e. node_in_edge g n = Some e \<longrightarrow> rank e < k"
    using ac Suc.prems unfolding acyclic_by_def by (meson less_Suc_eq_le less_le_trans)
  have "some_input_reaches k g from (edge_inputs g to)
          = Some (reaches_via g from (edge_inputs g to))"
    using Suc.IH bound by (rule some_input_reaches_correct)
  then show ?case by (simp add: reachable_reaches_via)
qed


lemma scan_inputs_sound:
  assumes peb: "\<And>m e m' b. memo_consistent g m \<Longrightarrow> PathExistsBetween k g m from e = Inr (m', b)
            \<Longrightarrow> b = reachable g from e \<and> memo_consistent g m'"
  shows "memo_consistent g m \<Longrightarrow> scan_inputs k g m from ns = Inr (m', b)
         \<Longrightarrow> b = reaches_via g from ns \<and> memo_consistent g m'"
proof (induction ns arbitrary: m)
  case Nil
  then show ?case by simp
next
  case (Cons n ns)
  show ?case
  proof (cases "node_in_edge g n")
    case None
    with Cons.prems have "scan_inputs k g m from ns = Inr (m', b)" by simp
    from Cons.IH [OF Cons.prems(1) this] None show ?thesis by (simp add: reaches_via_Cons)
  next
    case (Some e)
    show ?thesis
    proof (cases "e = from")
      case True
      with Some Cons.prems show ?thesis by (auto simp: reaches_via_Cons)
    next
      case False
      with Some Cons.prems(2) obtain m1 b1 where
        m1: "PathExistsBetween k g m from e = Inr (m1, b1)"
        by (auto split: sum.splits)
      from peb [OF Cons.prems(1) m1] have b1: "b1 = reachable g from e"
        and c1: "memo_consistent g m1" by simp_all
      show ?thesis
      proof (cases b1)
        case True
        with Some False m1 Cons.prems(2) b1 c1 show ?thesis
          by (auto simp: reaches_via_Cons)
      next
        case nb: False
        with Some False m1 Cons.prems(2) have "scan_inputs k g m1 from ns = Inr (m', b)"
          by simp
        from Cons.IH [OF c1 this] Some False nb b1 show ?thesis
          by (simp add: reaches_via_Cons)
      qed
    qed
  qed
qed

lemma PathExistsBetween_sound:
  "memo_consistent g m \<Longrightarrow> PathExistsBetween fuel g m from to = Inr (m', b)
   \<Longrightarrow> b = reachable g from to \<and> memo_consistent g m'"
proof (induction fuel arbitrary: m to m' b)
  case 0
  then show ?case
    by (auto simp: PathExistsBetween.simps memo_consistent_def split: option.splits)
next
  case (Suc k)
  show ?case
  proof (cases "memo_find m from to")
    case (Some b0)
    with Suc.prems show ?thesis
      by (auto simp: PathExistsBetween.simps memo_consistent_def)
  next
    case None
    let ?m0 = "if m from = None then m(from \<mapsto> Map.empty) else m"
    have c0: "memo_consistent g ?m0" using Suc.prems(1) by (rule memo_consistent_open)
    from None Suc.prems(2) obtain m1 where
      m1: "scan_inputs k g ?m0 from (edge_inputs g to) = Inr (m1, b)"
      and m': "m' = memo_insert m1 from to b"
      by (auto simp: PathExistsBetween.simps split: sum.splits)
    from scan_inputs_sound [OF Suc.IH c0 m1]
    have b: "b = reachable g from to" and c1: "memo_consistent g m1"
      by (simp_all add: reachable_reaches_via)
    from memo_consistent_insert [OF c1 b] m' b show ?thesis by simp
  qed
qed

lemma session_memo_consistent: "session_memo g m \<Longrightarrow> memo_consistent g m"
proof (induction rule: session_memo.induct)
  case fresh
  show ?case by (rule memo_consistent_empty)
next
  case (call m fuel "from" to m' b)
  from PathExistsBetween_sound [OF call.IH call.hyps(2)] show ?case by simp
qed

lemma acyclic_by_gap_graph: "acyclic_by gap_graph (\<lambda>e. e)"
  by (auto simp: acyclic_by_def gap_graph_def split: if_splits)

lemma reachable_gap_0_1: "reachable gap_graph 0 1"
  by (rule reachable.direct [where input = 0]) (simp_all add: gap_graph_def)

text \<open>
  C1.  On an acyclic graph, for a memo of the scan and fuel above the rank of
  \<open>to\<close>, \<open>PathExistsBetween from to\<close> returns, and its answer is
  \<open>reachable from to\<close>: true iff some input of \<open>to\<close> has a producing edge \<open>e\<close>
  with \<open>e = from\<close> or \<open>reachable from e\<close>, false when no input of \<open>to\<close> has a
  producing edge; and it is the answer of the computation without memo.
\<close>

theorem PathExistsBetween_memo_consistent:
  assumes "acyclic_by g rank" and "session_memo g m" and "rank to < fuel"
  shows "\<exists>m'. PathExistsBetween fuel g m from to = Inr (m', reachable g from to)
           \<and> session_memo g m'
           \<and> reachable_fresh fuel g from to = Some (reachable g from to)
           \<and> reachable g from to
               = (\<exists>input \<in> set (edge_inputs g to). \<exists>e. node_in_edge g input = Some e
                    \<and> (e = from \<or> reachable g from e))
           \<and> ((\<forall>input \<in> set (edge_inputs g to). node_in_edge g input = None)
                \<longrightarrow> \<not> reachable g from to)"
proof -
  have "memo_consistent g m" using assms(2) by (rule session_memo_consistent)
  from PathExistsBetween_correct [OF assms(1) this assms(3)] obtain m' where
    m': "PathExistsBetween fuel g m from to = Inr (m', reachable g from to)" by blast
  with assms(2) have "session_memo g m'" by (rule session_memo.call)
  moreover have "reachable_fresh fuel g from to = Some (reachable g from to)"
    using assms(1,3) by (rule reachable_fresh_correct)
  moreover have u: "reachable g from to
               = (\<exists>input \<in> set (edge_inputs g to). \<exists>e. node_in_edge g input = Some e
                    \<and> (e = from \<or> reachable g from e))"
    by (rule reachable_unfold)
  moreover have "(\<forall>input \<in> set (edge_inputs g to). node_in_edge g input = None)
                \<longrightarrow> \<not> reachable g from to"
    using u by auto
  ultimately show ?thesis using m' by blast
qed

theorem PathExistsBetween_memo_consistent_witness:
  "acyclic_by gap_graph (\<lambda>e. e) \<and> session_memo gap_graph Map.empty
   \<and> (\<exists>m1 m2. PathExistsBetween 5 gap_graph Map.empty 0 1 = Inr (m1, True)
         \<and> session_memo gap_graph m1
         \<and> PathExistsBetween 5 gap_graph m1 0 1 = Inr (m2, True))
   \<and> reachable_fresh 5 gap_graph 0 1 = Some True"
proof -
  have r: "(\<lambda>e. e) (1::nat) < 5" by simp
  note first = PathExistsBetween_memo_consistent
                 [OF acyclic_by_gap_graph session_memo.fresh r, of 0]
  then obtain m1 where m1: "PathExistsBetween 5 gap_graph Map.empty 0 1 = Inr (m1, True)"
    and s1: "session_memo gap_graph m1"
    and f: "reachable_fresh 5 gap_graph 0 1 = Some True"
    using reachable_gap_0_1 by auto
  from PathExistsBetween_memo_consistent [OF acyclic_by_gap_graph s1 r, of 0]
  obtain m2 where m2: "PathExistsBetween 5 gap_graph m1 0 1 = Inr (m2, True)"
    using reachable_gap_0_1 by auto
  from m1 s1 m2 have "\<exists>m1 m2. PathExistsBetween 5 gap_graph Map.empty 0 1 = Inr (m1, True)
         \<and> session_memo gap_graph m1
         \<and> PathExistsBetween 5 gap_graph m1 0 1 = Inr (m2, True)"
    by (intro exI [of _ m1] exI [of _ m2] conjI)
  with acyclic_by_gap_graph session_memo.fresh [of gap_graph] f show ?thesis
    by (intro conjI)
qed

section \<open>ProcessNodeDeps\<close>

lemma collect_deplog_edges_build_ninja:
  "\<exists>d \<in> set dep_nodes. node_path g d = ''build.ninja''
   \<Longrightarrow> collect_deplog_edges g dep_nodes acc = None"
  by (induction dep_nodes arbitrary: acc) (auto split: option.splits)

text \<open>
  C4.  When some dependency node has the path build.ninja, \<open>ProcessNodeDeps\<close>
  returns the session as it was given: no report, and every aggregate (and
  the memo) unchanged, whatever other dependencies the array holds.
\<close>

theorem ProcessNodeDeps_build_ninja:
  assumes "\<exists>d \<in> set dep_nodes. node_path g d = ''build.ninja''"
  shows "ProcessNodeDeps fuel g s node dep_nodes = Inr s"
  using collect_deplog_edges_build_ninja [OF assms] by (simp add: ProcessNodeDeps_def)

theorem ProcessNodeDeps_build_ninja_witness:
  "(\<exists>d \<in> set [1, 3]. node_path gap_graph d = ''build.ninja'')
   \<and> ProcessNodeDeps 5 gap_graph (MissingDependencyScanner Map.empty) 2 [1, 3]
       = Inr (MissingDependencyScanner Map.empty)"
proof -
  have h: "\<exists>d \<in> set [1, 3]. node_path gap_graph d = ''build.ninja''"
    by (simp add: gap_graph_def)
  show ?thesis using h ProcessNodeDeps_build_ninja [OF h] by simp
qed

lemma expected_reports_concat:
  "expected_reports g node edge dep_nodes =
     concat (map (\<lambda>dep. case node_in_edge g dep of
                          None \<Rightarrow> []
                        | Some e \<Rightarrow> if reachable g e edge then []
                                    else [(node, node_path g dep, edge_rule g e)]) dep_nodes)"
  unfolding expected_reports_def missing_dep_entries_def
  by (induction dep_nodes) (auto split: option.splits)


lemma collect_deplog_edges_Some:
  "\<forall>d \<in> set dep_nodes. node_path g d \<noteq> ''build.ninja''
   \<Longrightarrow> sorted acc \<Longrightarrow> distinct acc
   \<Longrightarrow> \<exists>des. collect_deplog_edges g dep_nodes acc = Some des
         \<and> set des = set acc \<union> producers g dep_nodes \<and> sorted des \<and> distinct des"
proof (induction dep_nodes arbitrary: acc)
  case Nil
  then show ?case by (simp add: producers_def)
next
  case (Cons d ds)
  show ?case
  proof (cases "node_in_edge g d")
    case None
    from Cons.IH [of acc] Cons.prems None show ?thesis
      by (auto simp: producers_def)
  next
    case (Some e)
    have "sorted (insort_insert e acc)" "distinct (insort_insert e acc)"
      using Cons.prems by (simp_all add: sorted_insort_insert distinct_insort_insert)
    from Cons.IH [OF _ this] Cons.prems obtain des where
      "collect_deplog_edges g ds (insort_insert e acc) = Some des"
      "set des = set (insort_insert e acc) \<union> producers g ds" "sorted des" "distinct des"
      by auto
    with Some Cons.prems show ?thesis
      by (auto simp: producers_def set_insort_insert)
  qed
qed

lemma find_missing_deps_correct:
  assumes ac: "acyclic_by g rank" and r: "rank edge < fuel"
  shows "memo_consistent g m
    \<Longrightarrow> \<exists>m'. find_missing_deps fuel g m des edge
              = Inr (m', filter (\<lambda>de. \<not> reachable g de edge) des)
          \<and> memo_consistent g m'"
proof (induction des arbitrary: m)
  case Nil
  then show ?case by simp
next
  case (Cons de des)
  from PathExistsBetween_correct [OF ac Cons.prems r] obtain m1 where
    m1: "PathExistsBetween fuel g m de edge = Inr (m1, reachable g de edge)"
    and c1: "memo_consistent g m1" by blast
  from Cons.IH [OF c1] obtain m2 where
    "find_missing_deps fuel g m1 des edge = Inr (m2, filter (\<lambda>de. \<not> reachable g de edge) des)"
    "memo_consistent g m2" by blast
  with m1 show ?case by simp
qed

lemma report_item_effect:
  "report_item g node item dep_nodes (s, names) = (s', names')
   \<Longrightarrow> seen s' = seen s \<and> nodes_missing_deps s' = nodes_missing_deps s
     \<and> missing_dep_path_count s' = missing_dep_path_count s
     \<and> adjacency_map s' = adjacency_map s \<and> deps_log s' = deps_log s
     \<and> classified s' = classified s
     \<and> reports s' = reports s @ concat (map (item_reports g node item) dep_nodes)
     \<and> generated_nodes s' = generated_nodes s \<union> {d \<in> set dep_nodes. node_in_edge g d = Some item}
     \<and> generator_rules s'
         = generator_rules s \<union> (\<lambda>d. edge_rule g item) ` {d \<in> set dep_nodes. node_in_edge g d = Some item}
     \<and> names' = names \<union> (\<lambda>d. rule_name g (edge_rule g item)) ` {d \<in> set dep_nodes. node_in_edge g d = Some item}"
proof (induction dep_nodes arbitrary: s names)
  case Nil
  then show ?case by simp
next
  case (Cons d ds)
  show ?case
  proof (cases "node_in_edge g d = Some item")
    case True
    let ?s1 = "s\<lparr>generated_nodes := insert d (generated_nodes s),
                generator_rules := insert (edge_rule g item) (generator_rules s),
                reports := reports s @ [(node, node_path g d, edge_rule g item)]\<rparr>"
    from Cons.prems True have
      "report_item g node item ds (?s1, insert (rule_name g (edge_rule g item)) names) = (s', names')"
      by simp
    from Cons.IH [OF this] True show ?thesis
      by (auto simp: item_reports_def)
  next
    case False
    with Cons.prems have "report_item g node item ds (s, names) = (s', names')" by simp
    from Cons.IH [OF this] False show ?thesis
      by (auto simp: item_reports_def)
  qed
qed

lemma report_missing_effect:
  "report_missing g node missing dep_nodes (s, names) = (s', names')
   \<Longrightarrow> seen s' = seen s \<and> nodes_missing_deps s' = nodes_missing_deps s
     \<and> missing_dep_path_count s' = missing_dep_path_count s
     \<and> adjacency_map s' = adjacency_map s \<and> deps_log s' = deps_log s
     \<and> classified s' = classified s
     \<and> reports s' = reports s
          @ concat (map (\<lambda>item. concat (map (item_reports g node item) dep_nodes)) missing)
     \<and> generated_nodes s'
         = generated_nodes s \<union> {d \<in> set dep_nodes. \<exists>item \<in> set missing. node_in_edge g d = Some item}
     \<and> generator_rules s'
         = generator_rules s \<union> edge_rule g ` (set missing \<inter> producers g dep_nodes)
     \<and> names' = names \<union> (\<lambda>item. rule_name g (edge_rule g item)) ` (set missing \<inter> producers g dep_nodes)"
proof (induction missing arbitrary: s names)
  case Nil
  then show ?case by simp
next
  case (Cons item rest)
  obtain s1 names1 where s1: "report_item g node item dep_nodes (s, names) = (s1, names1)"
    by (cases "report_item g node item dep_nodes (s, names)")
  with Cons.prems have "report_missing g node rest dep_nodes (s1, names1) = (s', names')"
    by simp
  from Cons.IH [OF this] report_item_effect [OF s1] show ?case
    by (auto simp: producers_def)
qed


lemma concat_map_Nil [simp]: "concat (map (\<lambda>d. []) ds) = []"
  by (induction ds) simp_all

lemma mset_concat_map_append:
  "mset (concat (map (\<lambda>d. A d @ B d) ds)) = mset (concat (map A ds)) + mset (concat (map B ds))"
  by (induction ds) simp_all

lemma mset_concat_swap:
  "mset (concat (map (\<lambda>item. concat (map (f item) ds)) items))
     = mset (concat (map (\<lambda>d. concat (map (\<lambda>item. f item d) items)) ds))"
  by (induction items) (simp_all add: mset_concat_map_append)

lemma item_reports_over_missing:
  "distinct missing
   \<Longrightarrow> concat (map (\<lambda>item. item_reports g node item d) missing)
       = (case node_in_edge g d of
            None \<Rightarrow> []
          | Some e \<Rightarrow> if e \<in> set missing then [(node, node_path g d, edge_rule g e)] else [])"
  by (induction missing) (auto simp: item_reports_def split: option.splits)

lemma missing_reports_mset:
  assumes "distinct des" and "set des = producers g dep_nodes"
  shows "mset (concat (map (\<lambda>item. concat (map (item_reports g node item) dep_nodes))
                 (filter (\<lambda>de. \<not> reachable g de edge) des)))
         = mset (expected_reports g node edge dep_nodes)"
proof -
  let ?missing = "filter (\<lambda>de. \<not> reachable g de edge) des"
  have d: "distinct ?missing" using assms(1) by simp
  have "map (\<lambda>d. concat (map (\<lambda>item. item_reports g node item d) ?missing)) dep_nodes
        = map (\<lambda>dep. case node_in_edge g dep of
                          None \<Rightarrow> []
                        | Some e \<Rightarrow> if reachable g e edge then []
                                    else [(node, node_path g dep, edge_rule g e)]) dep_nodes"
  proof (rule map_cong [OF refl])
    fix x assume x: "x \<in> set dep_nodes"
    show "concat (map (\<lambda>item. item_reports g node item x) ?missing)
          = (case node_in_edge g x of None \<Rightarrow> []
             | Some e \<Rightarrow> if reachable g e edge then []
                         else [(node, node_path g x, edge_rule g e)])"
      unfolding item_reports_over_missing [OF d]
      using x assms(2) by (auto simp: producers_def split: option.splits)
  qed
  then show ?thesis
    unfolding expected_reports_concat mset_concat_swap [of "item_reports g node"]
    by (simp only:)
qed

lemma ProcessNodeDeps_effect:
  assumes ac: "acyclic_by g rank" and mc: "memo_consistent g (adjacency_map s)"
    and e: "node_in_edge g node = Some edge" and r: "rank edge < fuel"
    and nb: "\<forall>d \<in> set dep_nodes. node_path g d \<noteq> ''build.ninja''"
  shows "\<exists>s' new. ProcessNodeDeps fuel g s node dep_nodes = Inr s'
           \<and> memo_consistent g (adjacency_map s')
           \<and> seen s' = seen s \<and> deps_log s' = deps_log s \<and> classified s' = classified s
           \<and> reports s' = reports s @ new
           \<and> mset new = mset (expected_reports g node edge dep_nodes)
           \<and> generated_nodes s' = generated_nodes s
                \<union> {d \<in> set dep_nodes. \<exists>item \<in> missing_edges g edge dep_nodes.
                       node_in_edge g d = Some item}
           \<and> generator_rules s' = generator_rules s \<union> edge_rule g ` missing_edges g edge dep_nodes
           \<and> missing_dep_path_count s'
                = (if missing_edges g edge dep_nodes = {} then missing_dep_path_count s
                   else int32_wrap (missing_dep_path_count s
                          + int (card ((\<lambda>item. rule_name g (edge_rule g item))
                                         ` missing_edges g edge dep_nodes))))
           \<and> nodes_missing_deps s'
                = (if missing_edges g edge dep_nodes = {} then nodes_missing_deps s
                   else insert node (nodes_missing_deps s))"
proof -
  from collect_deplog_edges_Some [OF nb, of "[]"] obtain des where
    des: "collect_deplog_edges g dep_nodes [] = Some des"
    and sd: "set des = producers g dep_nodes" and dd: "distinct des" by auto
  let ?missing = "filter (\<lambda>de. \<not> reachable g de edge) des"
  have sm: "set ?missing = missing_edges g edge dep_nodes"
    using sd by (auto simp: missing_edges_def)
  have smp: "set ?missing \<inter> producers g dep_nodes = missing_edges g edge dep_nodes"
    using sd by (auto simp: missing_edges_def)
  have ex0: "mset (expected_reports g node edge dep_nodes) = {#}"
    if "missing_edges g edge dep_nodes = {}"
    using missing_reports_mset [OF dd sd, of node edge] that sm
    by (metis (no_types, lifting) concat.simps(1) list.simps(8) mset.simps(1) set_empty)
  show ?thesis
  proof (cases "des = []")
    case True
    then have "missing_edges g edge dep_nodes = {}" using sm by simp
    with True des ex0 mc show ?thesis
      by (simp add: ProcessNodeDeps_def)
  next
    case False
    from find_missing_deps_correct [OF ac r mc, of des] obtain m where
      m: "find_missing_deps fuel g (adjacency_map s) des edge = Inr (m, ?missing)"
      and cm: "memo_consistent g m" by blast
    show ?thesis
    proof (cases "?missing = []")
      case True
      then have "missing_edges g edge dep_nodes = {}" using sm by simp
      with True False des ex0 m cm e show ?thesis
        by (simp add: ProcessNodeDeps_def)
    next
      case nonempty: False
      then have ne: "missing_edges g edge dep_nodes \<noteq> {}" using sm by auto
      obtain s1 names where
        rm: "report_missing g node ?missing dep_nodes (s\<lparr>adjacency_map := m\<rparr>, {}) = (s1, names)"
        by (cases "report_missing g node ?missing dep_nodes (s\<lparr>adjacency_map := m\<rparr>, {})")
      note eff = report_missing_effect [OF rm, unfolded smp sm]
      have pnd: "ProcessNodeDeps fuel g s node dep_nodes
            = Inr (s1\<lparr>missing_dep_path_count :=
                        int32_wrap (missing_dep_path_count s1 + int (card names)),
                      nodes_missing_deps := insert node (nodes_missing_deps s1)\<rparr>)"
        using des False e m nonempty rm by (simp add: ProcessNodeDeps_def)
      have ms: "mset (concat (map (\<lambda>item. concat (map (item_reports g node item) dep_nodes)) ?missing))
                 = mset (expected_reports g node edge dep_nodes)"
        by (rule missing_reports_mset [OF dd sd])
      have mp: "missing_edges g edge dep_nodes \<inter> producers g dep_nodes
                  = missing_edges g edge dep_nodes"
        by (auto simp: missing_edges_def)
      show ?thesis
        unfolding pnd using eff cm ne ms by (simp add: mp)
    qed
  qed
qed

lemma gap_graph_fields:
  "node_path gap_graph n = (if n = 0 then ''a.h'' else if n = 1 then ''b.o''
                        else if n = 2 then ''c.o'' else if n = 3 then ''build.ninja''
                        else if n = 5 then ''d.o'' else ''c.c'')"
  "node_in_edge gap_graph n = (if n = 0 then Some 0 else if n = 1 then Some 1
                           else if n = 2 then Some 2 else if n = 5 then Some 3 else None)"
  "edge_inputs gap_graph e = (if e = 1 then [0] else if e = 2 then [4] else [])"
  "edge_rule gap_graph e = (if e = 0 then 0 else if e = 1 \<or> e = 3 then 1 else 2)"
  "rule_name gap_graph r = (if r = 0 then ''gen'' else if r = 1 then ''cc'' else ''link'')"
  "edge_deps_binding gap_graph e = []"
  by (simp_all add: gap_graph_def)

lemma not_reachable_gap_2: "\<not> reachable gap_graph e 2"
  using reachable_unfold [of gap_graph e 2] by (simp add: gap_graph_fields)

lemma gap_session_consistent: "memo_consistent gap_graph (adjacency_map gap_session)"
  by (simp add: gap_session_def MissingDependencyScanner_def memo_consistent_empty)

lemma missing_edges_gap: "missing_edges gap_graph 2 [1, 5] = {1, 3}"
  by (auto simp: missing_edges_def producers_def not_reachable_gap_2 gap_graph_fields
      split: if_splits)

lemma int32_wrap_in_range:
  "- 2147483648 \<le> x \<Longrightarrow> x \<le> 2147483647 \<Longrightarrow> int32_wrap x = x"
  by (simp add: int32_wrap_def)

text \<open>
  C3, as stated, fails: at a problem count of 2147483647, a call that finds
  one missing edge leaves the count at -2147483648, not one higher.
\<close>

theorem problem_count_exact_counterexample:
  "missing_dep_path_count overflow_session = 2147483647
   \<and> count_of (ProcessNodeDeps 5 gap_graph overflow_session 2 [1]) = - 2147483648"
  by code_simp

text \<open>
  C3, amended.  A call of \<open>ProcessNodeDeps\<close> that finds a missing-dependency
  edge sets the problem count to the count plus the number of distinct rule
  names among the missing edges of the node, reduced to the range of a 32-bit
  \<open>int\<close>: the count rises by exactly that number whenever the sum is at most
  2147483647.  The node is added to the nodes-with-gaps set.
\<close>

theorem problem_count_distinct_rule_names:
  assumes "acyclic_by g rank" and "memo_consistent g (adjacency_map s)"
    and "node_in_edge g node = Some edge" and "rank edge < fuel"
    and "\<forall>d \<in> set dep_nodes. node_path g d \<noteq> ''build.ninja''"
    and "missing_edges g edge dep_nodes \<noteq> {}"
  shows "\<exists>s'. ProcessNodeDeps fuel g s node dep_nodes = Inr s'
           \<and> missing_dep_path_count s'
               = int32_wrap (missing_dep_path_count s
                   + int (card ((\<lambda>item. rule_name g (edge_rule g item))
                                  ` missing_edges g edge dep_nodes)))
           \<and> (- 2147483648 \<le> missing_dep_path_count s
                \<and> missing_dep_path_count s
                    + int (card ((\<lambda>item. rule_name g (edge_rule g item))
                                   ` missing_edges g edge dep_nodes)) \<le> 2147483647
                \<longrightarrow> missing_dep_path_count s'
                      = missing_dep_path_count s
                          + int (card ((\<lambda>item. rule_name g (edge_rule g item))
                                         ` missing_edges g edge dep_nodes)))
           \<and> nodes_missing_deps s' = insert node (nodes_missing_deps s)"
proof -
  let ?n = "int (card ((\<lambda>item. rule_name g (edge_rule g item)) ` missing_edges g edge dep_nodes))"
  from ProcessNodeDeps_effect [OF assms(1-5)] assms(6) obtain s' where
    s': "ProcessNodeDeps fuel g s node dep_nodes = Inr s'"
    "missing_dep_path_count s' = int32_wrap (missing_dep_path_count s + ?n)"
    "nodes_missing_deps s' = insert node (nodes_missing_deps s)"
    by auto
  have "missing_dep_path_count s' = missing_dep_path_count s + ?n"
    if "- 2147483648 \<le> missing_dep_path_count s \<and> missing_dep_path_count s + ?n \<le> 2147483647"
    using that s'(2) by (simp add: int32_wrap_in_range)
  with s' show ?thesis by blast
qed

theorem problem_count_distinct_rule_names_witness:
  "acyclic_by gap_graph (\<lambda>e. e) \<and> memo_consistent gap_graph (adjacency_map gap_session)
   \<and> node_in_edge gap_graph 2 = Some 2
   \<and> missing_edges gap_graph 2 [1, 5] = {1, 3}
   \<and> (\<exists>s'. ProcessNodeDeps 5 gap_graph gap_session 2 [1, 5] = Inr s'
         \<and> missing_dep_path_count s' = 1
         \<and> nodes_missing_deps s' = {2}
         \<and> length (reports s') = 2)"
proof -
  have e: "node_in_edge gap_graph 2 = Some 2" by (simp add: gap_graph_fields)
  have r: "(\<lambda>e. e) (2::nat) < 5" by simp
  have nb: "\<forall>d \<in> set [1, 5]. node_path gap_graph d \<noteq> ''build.ninja''"
    by (simp add: gap_graph_fields)
  have ne: "missing_edges gap_graph 2 [1, 5] \<noteq> {}" unfolding missing_edges_gap by simp
  have c: "card ((\<lambda>item. rule_name gap_graph (edge_rule gap_graph item)) ` {1, 3}) = 1"
    by (simp add: gap_graph_fields)
  have z: "missing_dep_path_count gap_session = 0" "nodes_missing_deps gap_session = {}"
    by (simp_all add: gap_session_def MissingDependencyScanner_def)
  have l: "length (reports_of (ProcessNodeDeps 5 gap_graph gap_session 2 [1, 5])) = 2"
    by code_simp
  from problem_count_distinct_rule_names
         [OF acyclic_by_gap_graph gap_session_consistent e r nb ne]
  obtain s' where s': "ProcessNodeDeps 5 gap_graph gap_session 2 [1, 5] = Inr s'"
    "- 2147483648 \<le> missing_dep_path_count gap_session
       \<and> missing_dep_path_count gap_session + 1 \<le> 2147483647
     \<longrightarrow> missing_dep_path_count s' = missing_dep_path_count gap_session + 1"
    "nodes_missing_deps s' = insert 2 (nodes_missing_deps gap_session)"
    unfolding missing_edges_gap c by auto
  have "missing_dep_path_count s' = 1" "nodes_missing_deps s' = {2}" "length (reports s') = 2"
    using s' l z by (simp_all add: reports_of_def)
  with s'(1) have "\<exists>s'. ProcessNodeDeps 5 gap_graph gap_session 2 [1, 5] = Inr s'
         \<and> missing_dep_path_count s' = 1
         \<and> nodes_missing_deps s' = {2}
         \<and> length (reports s') = 2" by (intro exI [of _ s'] conjI)
  with acyclic_by_gap_graph gap_session_consistent e missing_edges_gap show ?thesis
    by (intro conjI)
qed

section \<open>ProcessNode\<close>

lemma session_grows_refl: "session_grows s s"
  by (simp add: session_grows_def)

lemma session_grows_trans:
  assumes "session_grows s s1" and "session_grows s1 s2"
  shows "session_grows s s2"
proof -
  from assms(1) obtain new1 where 1: "deps_log s1 = deps_log s" "seen s \<subseteq> seen s1"
    "classified s1 = classified s @ new1" "distinct new1" "set new1 \<inter> seen s = {}"
    "set new1 \<subseteq> seen s1"
    unfolding session_grows_def by blast
  from assms(2) obtain new2 where 2: "deps_log s2 = deps_log s1" "seen s1 \<subseteq> seen s2"
    "classified s2 = classified s1 @ new2" "distinct new2" "set new2 \<inter> seen s1 = {}"
    "set new2 \<subseteq> seen s2"
    unfolding session_grows_def by blast
  have "classified s2 = classified s @ (new1 @ new2)" using 1 2 by simp
  moreover have "distinct (new1 @ new2)" using 1 2 by auto
  moreover have "set (new1 @ new2) \<inter> seen s = {}" using 1 2 by auto
  moreover have "set (new1 @ new2) \<subseteq> seen s2" using 1 2 by auto
  moreover have "deps_log s2 = deps_log s" "seen s \<subseteq> seen s2" using 1 2 by auto
  ultimately show ?thesis unfolding session_grows_def by blast
qed

lemma ProcessNodeDeps_frame:
  assumes "ProcessNodeDeps fuel g s node dep_nodes = Inr s'"
  shows "seen s' = seen s \<and> deps_log s' = deps_log s \<and> classified s' = classified s"
proof (cases "collect_deplog_edges g dep_nodes []")
  case None
  with assms show ?thesis by (simp add: ProcessNodeDeps_def)
next
  case (Some des)
  show ?thesis
  proof (cases "des = []")
    case True
    with Some assms show ?thesis by (simp add: ProcessNodeDeps_def)
  next
    case False
    with Some assms obtain edge where e: "node_in_edge g node = Some edge"
      by (auto simp: ProcessNodeDeps_def split: option.splits)
    with Some False assms obtain m missing where
      fm: "find_missing_deps fuel g (adjacency_map s) des edge = Inr (m, missing)"
      by (auto simp: ProcessNodeDeps_def split: sum.splits)
    show ?thesis
    proof (cases "missing = []")
      case True
      with Some False e fm assms show ?thesis by (auto simp: ProcessNodeDeps_def)
    next
      case ne: False
      obtain s1 names where
        rm: "report_missing g node missing dep_nodes (s\<lparr>adjacency_map := m\<rparr>, {}) = (s1, names)"
        by (cases "report_missing g node missing dep_nodes (s\<lparr>adjacency_map := m\<rparr>, {})")
      with Some False e fm ne assms have
        "s' = s1\<lparr>missing_dep_path_count :=
                   int32_wrap (missing_dep_path_count s1 + int (card names)),
                 nodes_missing_deps := insert node (nodes_missing_deps s1)\<rparr>"
        by (simp add: ProcessNodeDeps_def)
      with report_missing_effect [OF rm] show ?thesis by simp
    qed
  qed
qed

lemma classify_deps_frame:
  assumes "classify_deps fuel g env s node edge = Inr s'"
  shows "seen s' = seen s \<and> deps_log s' = deps_log s \<and> classified s' = classified s @ [node]"
proof -
  let ?s0 = "s\<lparr>classified := classified s @ [node]\<rparr>"
  have "s' = ?s0 \<or> (\<exists>deps. ProcessNodeDeps fuel g ?s0 node deps = Inr s')"
    using assms unfolding classify_deps_def Let_def
    by (auto split: if_splits option.splits prod.splits)
  then show ?thesis
  proof
    assume "s' = ?s0" then show ?thesis by simp
  next
    assume "\<exists>deps. ProcessNodeDeps fuel g ?s0 node deps = Inr s'"
    then obtain deps where "ProcessNodeDeps fuel g ?s0 node deps = Inr s'" ..
    from ProcessNodeDeps_frame [OF this] show ?thesis by simp
  qed
qed

lemma ProcessNode_grows:
  "ProcessNode fuel g env s n = Inr s'
     \<Longrightarrow> session_grows s s'
         \<and> (\<forall>node. n = Some node \<longrightarrow> node_in_edge g node \<noteq> None \<longrightarrow> node \<in> seen s')"
  "ProcessInputs fuel g env s ns = Inr s' \<Longrightarrow> session_grows s s'"
proof (induction fuel g env s n and fuel g env s ns arbitrary: s' and s'
       rule: ProcessNode_ProcessInputs.induct)
  case (1 fuel g env s)
  then show ?case by (simp add: session_grows_refl)
next
  case (2 fuel g env s node)
  show ?case
  proof (cases "node_in_edge g node")
    case None
    with 2 show ?thesis by (simp add: ProcessNode.simps session_grows_refl)
  next
    case (Some edge)
    show ?thesis
    proof (cases "node \<in> seen s")
      case True
      with 2 Some show ?thesis by (simp add: ProcessNode.simps session_grows_refl)
    next
      case False
      with 2(2) Some obtain k where k: "fuel = Suc k"
        by (cases fuel) (simp_all add: ProcessNode.simps)
      let ?s0 = "s\<lparr>seen := insert node (seen s)\<rparr>"
      from 2(2) Some False k obtain s1 where
        s1: "ProcessInputs k g env ?s0 (edge_inputs g edge) = Inr s1"
        and cl: "classify_deps (Suc k) g env s1 node edge = Inr s'"
        by (auto simp: ProcessNode.simps split: sum.splits)
      from 2(1) [OF Some False k s1] have g1: "session_grows ?s0 s1" .
      then obtain new1 where n1: "deps_log s1 = deps_log s" "insert node (seen s) \<subseteq> seen s1"
        "classified s1 = classified s @ new1" "distinct new1"
        "set new1 \<inter> insert node (seen s) = {}" "set new1 \<subseteq> seen s1"
        unfolding session_grows_def by auto
      from classify_deps_frame [OF cl] have c: "seen s' = seen s1" "deps_log s' = deps_log s1"
        "classified s' = classified s1 @ [node]" by simp_all
      have "classified s' = classified s @ (new1 @ [node])" using n1 c by simp
      moreover have "distinct (new1 @ [node])" using n1 by auto
      moreover have "set (new1 @ [node]) \<inter> seen s = {}" using n1 False by auto
      moreover have "set (new1 @ [node]) \<subseteq> seen s'" using n1 c by auto
      moreover have "deps_log s' = deps_log s" "seen s \<subseteq> seen s'" "node \<in> seen s'"
        using n1 c by auto
      ultimately show ?thesis unfolding session_grows_def by blast
    qed
  qed
next
  case (3 k g env s)
  then show ?case by (simp add: session_grows_refl)
next
  case (4 k g env s input rest)
  from 4(3) obtain s1 where s1: "ProcessNode k g env s (Some input) = Inr s1"
    and rest: "ProcessInputs k g env s1 rest = Inr s'"
    by (auto split: sum.splits)
  from 4(1) [OF s1] have "session_grows s s1" by simp
  moreover from 4(2) [OF s1 rest] have "session_grows s1 s'" .
  ultimately show ?case by (rule session_grows_trans)
qed

lemma find_missing_deps_sound:
  "memo_consistent g m \<Longrightarrow> find_missing_deps fuel g m des edge = Inr (m', missing)
   \<Longrightarrow> memo_consistent g m'"
proof (induction des arbitrary: m missing)
  case Nil
  then show ?case by simp
next
  case (Cons de des)
  from Cons.prems(2) obtain m1 b where
    m1: "PathExistsBetween fuel g m de edge = Inr (m1, b)"
    by (auto split: sum.splits)
  with Cons.prems(2) obtain rest where
    r: "find_missing_deps fuel g m1 des edge = Inr (m', rest)"
    by (auto split: sum.splits)
  from PathExistsBetween_sound [OF Cons.prems(1) m1] have "memo_consistent g m1" by simp
  from Cons.IH [OF this r] show ?case .
qed

lemma ProcessNodeDeps_keeps_memo:
  assumes "ProcessNodeDeps fuel g s node dep_nodes = Inr s'"
    and mc: "memo_consistent g (adjacency_map s)"
  shows "memo_consistent g (adjacency_map s')"
proof (cases "collect_deplog_edges g dep_nodes []")
  case None
  with assms show ?thesis by (simp add: ProcessNodeDeps_def)
next
  case (Some des)
  show ?thesis
  proof (cases "des = []")
    case True
    with Some assms show ?thesis by (simp add: ProcessNodeDeps_def)
  next
    case False
    with Some assms obtain edge where e: "node_in_edge g node = Some edge"
      by (auto simp: ProcessNodeDeps_def split: option.splits)
    with Some False assms obtain m missing where
      fm: "find_missing_deps fuel g (adjacency_map s) des edge = Inr (m, missing)"
      by (auto simp: ProcessNodeDeps_def split: sum.splits)
    from find_missing_deps_sound [OF mc fm] have cm: "memo_consistent g m" .
    show ?thesis
    proof (cases "missing = []")
      case True
      with Some False e fm assms cm show ?thesis by (auto simp: ProcessNodeDeps_def)
    next
      case ne: False
      obtain s1 names where
        rm: "report_missing g node missing dep_nodes (s\<lparr>adjacency_map := m\<rparr>, {}) = (s1, names)"
        by (cases "report_missing g node missing dep_nodes (s\<lparr>adjacency_map := m\<rparr>, {})")
      with Some False e fm ne assms have
        "s' = s1\<lparr>missing_dep_path_count :=
                   int32_wrap (missing_dep_path_count s1 + int (card names)),
                 nodes_missing_deps := insert node (nodes_missing_deps s1)\<rparr>"
        by (simp add: ProcessNodeDeps_def)
      with report_missing_effect [OF rm] cm show ?thesis by simp
    qed
  qed
qed

lemma classify_deps_keeps_memo:
  assumes "classify_deps fuel g env s node edge = Inr s'"
    and mc: "memo_consistent g (adjacency_map s)"
  shows "memo_consistent g (adjacency_map s')"
proof -
  let ?s0 = "s\<lparr>classified := classified s @ [node]\<rparr>"
  have mc0: "memo_consistent g (adjacency_map ?s0)" using mc by simp
  have "s' = ?s0 \<or> (\<exists>deps. ProcessNodeDeps fuel g ?s0 node deps = Inr s')"
    using assms(1) unfolding classify_deps_def Let_def
    by (auto split: if_splits option.splits prod.splits)
  then show ?thesis
  proof
    assume "s' = ?s0" with mc0 show ?thesis by simp
  next
    assume "\<exists>deps. ProcessNodeDeps fuel g ?s0 node deps = Inr s'"
    then obtain deps where "ProcessNodeDeps fuel g ?s0 node deps = Inr s'" ..
    from ProcessNodeDeps_keeps_memo [OF this mc0] show ?thesis .
  qed
qed

lemma ProcessNode_keeps_memo:
  "ProcessNode fuel g env s n = Inr s' \<Longrightarrow> memo_consistent g (adjacency_map s)
     \<Longrightarrow> memo_consistent g (adjacency_map s')"
  "ProcessInputs fuel g env s ns = Inr s' \<Longrightarrow> memo_consistent g (adjacency_map s)
     \<Longrightarrow> memo_consistent g (adjacency_map s')"
proof (induction fuel g env s n and fuel g env s ns arbitrary: s' and s'
       rule: ProcessNode_ProcessInputs.induct)
  case (1 fuel g env s)
  then show ?case by simp
next
  case (2 fuel g env s node)
  show ?case
  proof (cases "node_in_edge g node")
    case None
    with 2 show ?thesis by (simp add: ProcessNode.simps)
  next
    case (Some edge)
    show ?thesis
    proof (cases "node \<in> seen s")
      case True
      with 2 Some show ?thesis by (simp add: ProcessNode.simps)
    next
      case False
      with 2(2) Some obtain k where k: "fuel = Suc k"
        by (cases fuel) (simp_all add: ProcessNode.simps)
      let ?s0 = "s\<lparr>seen := insert node (seen s)\<rparr>"
      from 2(2) Some False k obtain s1 where
        s1: "ProcessInputs k g env ?s0 (edge_inputs g edge) = Inr s1"
        and cl: "classify_deps (Suc k) g env s1 node edge = Inr s'"
        by (auto simp: ProcessNode.simps split: sum.splits)
      have "memo_consistent g (adjacency_map ?s0)" using 2(3) by simp
      from 2(1) [OF Some False k s1 this] have "memo_consistent g (adjacency_map s1)" .
      from classify_deps_keeps_memo [OF cl this] show ?thesis .
    qed
  qed
next
  case (3 k g env s)
  then show ?case by simp
next
  case (4 k g env s input rest)
  from 4(3) obtain s1 where s1: "ProcessNode k g env s (Some input) = Inr s1"
    and rest: "ProcessInputs k g env s1 rest = Inr s'"
    by (auto split: sum.splits)
  from 4(1) [OF s1 4(4)] have "memo_consistent g (adjacency_map s1)" .
  from 4(2) [OF s1 rest this] show ?case .
qed

lemma acyclic_by_inputs_bound:
  assumes "acyclic_by g rank" and "rank e < Suc k"
  shows "\<forall>input \<in> set (edge_inputs g e). \<forall>e'. node_in_edge g input = Some e' \<longrightarrow> rank e' < k"
proof (intro ballI allI impI)
  fix input e'
  assume "input \<in> set (edge_inputs g e)" and "node_in_edge g input = Some e'"
  with assms(1) have "rank e' < rank e" unfolding acyclic_by_def by blast
  with assms(2) show "rank e' < k" by simp
qed

lemma ProcessNodeDeps_total:
  assumes ac: "acyclic_by g rank" and mc: "memo_consistent g (adjacency_map s)"
    and e: "node_in_edge g node = Some edge" and r: "rank edge < fuel"
  shows "\<exists>s'. ProcessNodeDeps fuel g s node dep_nodes = Inr s'
           \<and> memo_consistent g (adjacency_map s')"
proof (cases "\<exists>d \<in> set dep_nodes. node_path g d = ''build.ninja''")
  case True
  from collect_deplog_edges_build_ninja [OF True] mc show ?thesis
    by (simp add: ProcessNodeDeps_def)
next
  case False
  then have "\<forall>d \<in> set dep_nodes. node_path g d \<noteq> ''build.ninja''" by simp
  from ProcessNodeDeps_effect [OF ac mc e r this] show ?thesis by blast
qed

lemma classify_deps_total:
  assumes ac: "acyclic_by g rank" and mc: "memo_consistent g (adjacency_map s)"
    and e: "node_in_edge g node = Some edge" and r: "rank edge < fuel"
  shows "\<exists>s'. classify_deps fuel g env s node edge = Inr s'
           \<and> memo_consistent g (adjacency_map s')"
proof -
  let ?s0 = "s\<lparr>classified := classified s @ [node]\<rparr>"
  have mc0: "memo_consistent g (adjacency_map ?s0)" using mc by simp
  note pnd = ProcessNodeDeps_total [OF ac mc0 e r]
  show ?thesis
  proof (cases "edge_deps_binding g edge \<noteq> []")
    case True
    show ?thesis
    proof (cases "deps_log s node")
      case None
      with True mc0 show ?thesis by (simp add: classify_deps_def)
    next
      case (Some deps)
      with True pnd [of deps] show ?thesis by (simp add: classify_deps_def)
    qed
  next
    case False
    obtain ok depfile_deps where ld: "LoadDeps env edge [] = (ok, depfile_deps)"
      by (cases "LoadDeps env edge []")
    show ?thesis
    proof (cases "depfile_deps = []")
      case True
      with False ld mc0 show ?thesis by (simp add: classify_deps_def)
    next
      case ne: False
      with False ld pnd [of depfile_deps] show ?thesis by (simp add: classify_deps_def)
    qed
  qed
qed

lemma ProcessNode_total:
  "acyclic_by g rank \<Longrightarrow> memo_consistent g (adjacency_map s)
     \<Longrightarrow> \<forall>node e. n = Some node \<longrightarrow> node_in_edge g node = Some e \<longrightarrow> rank e < fuel
     \<Longrightarrow> \<exists>s'. ProcessNode fuel g env s n = Inr s' \<and> memo_consistent g (adjacency_map s')"
  "acyclic_by g rank \<Longrightarrow> memo_consistent g (adjacency_map s)
     \<Longrightarrow> \<forall>input \<in> set ns. \<forall>e. node_in_edge g input = Some e \<longrightarrow> rank e < fuel
     \<Longrightarrow> \<exists>s'. ProcessInputs fuel g env s ns = Inr s' \<and> memo_consistent g (adjacency_map s')"
proof (induction fuel g env s n and fuel g env s ns rule: ProcessNode_ProcessInputs.induct)
  case (1 fuel g env s)
  then show ?case by simp
next
  case (2 fuel g env s node)
  note ac = 2(2) and mc = 2(3) and bd = 2(4)
  show ?case
  proof (cases "node_in_edge g node")
    case None
    with mc show ?thesis by (simp add: ProcessNode.simps)
  next
    case (Some edge)
    show ?thesis
    proof (cases "node \<in> seen s")
      case True
      with mc Some show ?thesis by (simp add: ProcessNode.simps)
    next
      case False
      from bd Some have r: "rank edge < fuel" by simp
      then obtain k where k: "fuel = Suc k" by (cases fuel) simp_all
      let ?s0 = "s\<lparr>seen := insert node (seen s)\<rparr>"
      have mc0: "memo_consistent g (adjacency_map ?s0)" using mc by simp
      have bound: "\<forall>input \<in> set (edge_inputs g edge). \<forall>e. node_in_edge g input = Some e
                      \<longrightarrow> rank e < k"
        using acyclic_by_inputs_bound [OF ac, of edge k] r k by simp
      from 2(1) [OF Some False k ac mc0 bound] obtain s1 where
        s1: "ProcessInputs k g env ?s0 (edge_inputs g edge) = Inr s1"
        and mc1: "memo_consistent g (adjacency_map s1)" by blast
      from classify_deps_total [OF ac mc1 Some, of "Suc k" env] r k obtain s' where
        "classify_deps (Suc k) g env s1 node edge = Inr s'"
        "memo_consistent g (adjacency_map s')" by blast
      with Some False k s1 show ?thesis by (simp add: ProcessNode.simps)
    qed
  qed
next
  case (3 k g env s)
  then show ?case by simp
next
  case (4 k g env s input rest)
  note ac = 4(3) and mc = 4(4) and bd = 4(5)
  have "\<forall>node e. Some input = Some node \<longrightarrow> node_in_edge g node = Some e \<longrightarrow> rank e < k"
    using bd by simp
  from 4(1) [OF ac mc this] obtain s1 where
    s1: "ProcessNode k g env s (Some input) = Inr s1"
    and mc1: "memo_consistent g (adjacency_map s1)" by blast
  have "\<forall>input \<in> set rest. \<forall>e. node_in_edge g input = Some e \<longrightarrow> rank e < k"
    using bd by simp
  from 4(2) [OF s1 ac mc1 this] obtain s' where
    "ProcessInputs k g env s1 rest = Inr s'" "memo_consistent g (adjacency_map s')" by blast
  with s1 show ?case by simp
qed

lemma ProcessNode_noop:
  "node_in_edge g node = None \<or> node \<in> seen s \<Longrightarrow> ProcessNode fuel g env s (Some node) = Inr s"
  by (auto simp: ProcessNode.simps split: option.splits)

lemma session_grows_classified:
  assumes "session_grows s s'" and "distinct (classified s)" and "set (classified s) \<subseteq> seen s"
  shows "distinct (classified s') \<and> set (classified s') \<subseteq> seen s'"
proof -
  from assms(1) obtain new where n: "seen s \<subseteq> seen s'"
    "classified s' = classified s @ new" "distinct new" "set new \<inter> seen s = {}"
    "set new \<subseteq> seen s'"
    unfolding session_grows_def by blast
  have "set (classified s) \<inter> set new = {}" using n(4) assms(3) by blast
  then have "distinct (classified s')" using n(2,3) assms(2) by simp
  moreover have "set (classified s') \<subseteq> seen s'" using n(1,2,5) assms(3) by auto
  ultimately show ?thesis by simp
qed

lemma scan_session_invariants:
  "scan_session g env s
   \<Longrightarrow> memo_consistent g (adjacency_map s)
       \<and> distinct (classified s) \<and> set (classified s) \<subseteq> seen s"
proof (induction rule: scan_session.induct)
  case (constructed log)
  show ?case by (simp add: MissingDependencyScanner_def memo_consistent_empty)
next
  case (processed s fuel n s')
  from ProcessNode_keeps_memo(1) [OF processed.hyps(2)] processed.IH
  have "memo_consistent g (adjacency_map s')" by simp
  moreover from session_grows_classified [of s s'] ProcessNode_grows(1) [OF processed.hyps(2)]
    processed.IH
  have "distinct (classified s') \<and> set (classified s') \<subseteq> seen s'" by simp
  ultimately show ?case by simp
qed

text \<open>
  C5.  \<open>ProcessNode\<close> does nothing on an absent node, on a node with no
  producing edge and on a visited node; a second call on the same node returns
  the session unchanged; in every state of a session lines 90-104 have run at
  most once per node (the classified nodes are pairwise different, and
  visited); and on an acyclic graph, with enough fuel for the rank of the
  node's edge, the call returns.
\<close>

theorem ProcessNode_idempotent:
  "ProcessNode fuel g env s None = Inr s
   \<and> (node_in_edge g node = None \<longrightarrow> ProcessNode fuel g env s (Some node) = Inr s)
   \<and> (node \<in> seen s \<longrightarrow> ProcessNode fuel g env s (Some node) = Inr s)
   \<and> (ProcessNode fuel g env s n = Inr s' \<longrightarrow> ProcessNode fuel' g env s' n = Inr s')
   \<and> (scan_session g env s \<longrightarrow> distinct (classified s) \<and> set (classified s) \<subseteq> seen s)
   \<and> (acyclic_by g rank \<and> scan_session g env s
        \<and> node_in_edge g node = Some edge \<and> rank edge < fuel
        \<longrightarrow> (\<exists>s1. ProcessNode fuel g env s (Some node) = Inr s1))"
proof (intro conjI impI)
  show "ProcessNode fuel g env s None = Inr s" by simp
next
  assume "node_in_edge g node = None"
  then show "ProcessNode fuel g env s (Some node) = Inr s" by (simp add: ProcessNode_noop)
next
  assume "node \<in> seen s"
  then show "ProcessNode fuel g env s (Some node) = Inr s" by (simp add: ProcessNode_noop)
next
  assume run: "ProcessNode fuel g env s n = Inr s'"
  show "ProcessNode fuel' g env s' n = Inr s'"
  proof (cases n)
    case None
    then show ?thesis by simp
  next
    case (Some node')
    from ProcessNode_grows(1) [OF run] Some
    have "node_in_edge g node' = None \<or> node' \<in> seen s'" by blast
    then show ?thesis unfolding Some by (rule ProcessNode_noop)
  qed
next
  assume "scan_session g env s"
  from scan_session_invariants [OF this] show "distinct (classified s)" by simp
next
  assume "scan_session g env s"
  from scan_session_invariants [OF this] show "set (classified s) \<subseteq> seen s" by simp
next
  assume a: "acyclic_by g rank \<and> scan_session g env s
        \<and> node_in_edge g node = Some edge \<and> rank edge < fuel"
  then have mc: "memo_consistent g (adjacency_map s)"
    using scan_session_invariants by blast
  from a have "\<forall>node' e. Some node = Some node' \<longrightarrow> node_in_edge g node' = Some e \<longrightarrow> rank e < fuel"
    by simp
  with ProcessNode_total(1) [of g rank s "Some node" fuel env] a mc
  show "\<exists>s1. ProcessNode fuel g env s (Some node) = Inr s1" by blast
qed

text \<open>
  C6.  For a node, not yet visited, whose producing edge has an empty "deps"
  binding and whose depfile is absent or does not parse: the dependency set
  is empty, and \<open>ProcessNode\<close> returns the session its inputs left, with no
  report and no change of the gap sets for this node, and no error.
\<close>

theorem ProcessNode_depfile_failure:
  assumes "node_in_edge g node = Some edge" and "node \<notin> seen s"
    and "edge_deps_binding g edge = []" and "depfile_ins env edge = None"
    and "ProcessInputs k g env (s\<lparr>seen := insert node (seen s)\<rparr>) (edge_inputs g edge) = Inr s1"
  shows "LoadDeps env edge [] = (False, [])
         \<and> ProcessNode (Suc k) g env s (Some node)
             = Inr (s1\<lparr>classified := classified s1 @ [node]\<rparr>)
         \<and> reports_of (ProcessNode (Suc k) g env s (Some node)) = reports s1"
  using assms by (simp add: ProcessNode.simps classify_deps_def LoadDeps_def reports_of_def)

text \<open>
  C7.  The dependency log is the same before and after a call of
  \<open>ProcessNode\<close>, and before and after a sequence of calls; the nodes of the
  depfile go to the output vector and nowhere else.
\<close>

theorem scanner_never_writes_deps_log:
  "(ProcessNode fuel g env s n = Inr s' \<longrightarrow> deps_log s' = deps_log s)
   \<and> (ProcessInputs fuel g env s roots = Inr s' \<longrightarrow> deps_log s' = deps_log s)
   \<and> ProcessDepfileDeps env edge ins out
       = (True, out @ map (\<lambda>item. GetNode env (CanonicalizePath env item)) ins)"
proof (intro conjI impI)
  assume "ProcessNode fuel g env s n = Inr s'"
  from ProcessNode_grows(1) [OF this] show "deps_log s' = deps_log s"
    by (simp add: session_grows_def)
next
  assume "ProcessInputs fuel g env s roots = Inr s'"
  from ProcessNode_grows(2) [OF this] show "deps_log s' = deps_log s"
    by (simp add: session_grows_def)
next
  show "ProcessDepfileDeps env edge ins out
       = (True, out @ map (\<lambda>item. GetNode env (CanonicalizePath env item)) ins)"
    by (induction ins arbitrary: out) simp_all
qed

lemma gap_env_fields:
  "depfile_ins gap_env e = (if e = 2 then Some [''b.o''] else None)"
  by (simp add: gap_env_def)

lemma gap_session_fields:
  "seen gap_session = {}" "classified gap_session = []" "reports gap_session = []"
  "adjacency_map gap_session = Map.empty" "deps_log gap_session = Map.empty"
  by (simp_all add: gap_session_def MissingDependencyScanner_def)

lemma gap_run_2:
  "\<exists>s'. ProcessNode 5 gap_graph gap_env gap_session (Some 2) = Inr s'"
proof -
  have "\<forall>node e. Some (2::nat) = Some node \<longrightarrow> node_in_edge gap_graph node = Some e \<longrightarrow> e < 5"
    by (simp add: gap_graph_fields)
  from ProcessNode_total(1) [OF acyclic_by_gap_graph gap_session_consistent this]
  show ?thesis by blast
qed

lemma gap_run_1_2:
  "\<exists>s'. ProcessInputs 5 gap_graph gap_env gap_session [1, 2] = Inr s'"
proof -
  have "\<forall>input \<in> set [1, 2]. \<forall>e. node_in_edge gap_graph input = Some e \<longrightarrow> e < 5"
    by (simp add: gap_graph_fields)
  from ProcessNode_total(2) [OF acyclic_by_gap_graph gap_session_consistent this]
  show ?thesis by blast
qed

theorem ProcessNode_idempotent_witness:
  "ProcessNode 5 gap_graph gap_env gap_session None = Inr gap_session
   \<and> node_in_edge gap_graph 4 = None
   \<and> ProcessNode 5 gap_graph gap_env gap_session (Some 4) = Inr gap_session
   \<and> (\<exists>s'. ProcessNode 5 gap_graph gap_env gap_session (Some 2) = Inr s'
         \<and> scan_session gap_graph gap_env s'
         \<and> 2 \<in> seen s'
         \<and> ProcessNode 5 gap_graph gap_env s' (Some 2) = Inr s'
         \<and> distinct (classified s') \<and> set (classified s') \<subseteq> seen s')"
proof -
  have n4: "node_in_edge gap_graph 4 = None" by (simp add: gap_graph_fields)
  have e2: "node_in_edge gap_graph 2 = Some 2" by (simp add: gap_graph_fields)
  have s0: "scan_session gap_graph gap_env gap_session"
    unfolding gap_session_def by (rule scan_session.constructed)
  note inst4 = ProcessNode_idempotent [of 5 gap_graph gap_env gap_session 4]
  from inst4 have a: "ProcessNode 5 gap_graph gap_env gap_session None = Inr gap_session"
    by (rule conjunct1)
  from inst4 n4 have b: "ProcessNode 5 gap_graph gap_env gap_session (Some 4) = Inr gap_session"
    by blast
  from ProcessNode_idempotent
         [of 5 gap_graph gap_env gap_session 2 None gap_session 5 "\<lambda>e. e" 2]
    acyclic_by_gap_graph s0 e2
  obtain s' where run: "ProcessNode 5 gap_graph gap_env gap_session (Some 2) = Inr s'"
    by auto
  from s0 run have s1: "scan_session gap_graph gap_env s'" by (rule scan_session.processed)
  from ProcessNode_idempotent [of 5 gap_graph gap_env gap_session 2 "Some 2" s' 5] run
  have c: "ProcessNode 5 gap_graph gap_env s' (Some 2) = Inr s'"
    by blast
  from ProcessNode_idempotent [of 5 gap_graph gap_env s' 2] s1
  have d: "distinct (classified s')" "set (classified s') \<subseteq> seen s'"
    by blast+
  have "seen (case ProcessNode 5 gap_graph gap_env gap_session (Some 2) of
                Inr s \<Rightarrow> s | Inl err \<Rightarrow> gap_session) = {2}"
    by code_simp
  with run have v: "2 \<in> seen s'" by simp
  from run s1 v c d have "\<exists>s'. ProcessNode 5 gap_graph gap_env gap_session (Some 2) = Inr s'
         \<and> scan_session gap_graph gap_env s'
         \<and> 2 \<in> seen s'
         \<and> ProcessNode 5 gap_graph gap_env s' (Some 2) = Inr s'
         \<and> distinct (classified s') \<and> set (classified s') \<subseteq> seen s'"
    by (intro exI [of _ s'] conjI)
  with a n4 b show ?thesis by (intro conjI)
qed

theorem ProcessNode_depfile_failure_witness:
  "node_in_edge gap_graph 0 = Some 0 \<and> 0 \<notin> seen gap_session
   \<and> edge_deps_binding gap_graph 0 = [] \<and> depfile_ins gap_env 0 = None
   \<and> LoadDeps gap_env 0 [] = (False, [])
   \<and> ProcessNode 5 gap_graph gap_env gap_session (Some 0)
       = Inr (gap_session\<lparr>seen := {0}, classified := [0]\<rparr>)
   \<and> reports_of (ProcessNode 5 gap_graph gap_env gap_session (Some 0)) = []"
proof -
  have h: "node_in_edge gap_graph 0 = Some 0" "0 \<notin> seen gap_session"
    "edge_deps_binding gap_graph 0 = []" "depfile_ins gap_env 0 = None"
    by (simp_all add: gap_graph_fields gap_env_fields gap_session_fields)
  have i: "ProcessInputs 4 gap_graph gap_env (gap_session\<lparr>seen := insert 0 (seen gap_session)\<rparr>)
             (edge_inputs gap_graph 0) = Inr (gap_session\<lparr>seen := insert 0 (seen gap_session)\<rparr>)"
    by (simp add: gap_graph_fields)
  from ProcessNode_depfile_failure [OF h i] h show ?thesis
    by (simp add: gap_session_fields reports_of_def)
qed

theorem scanner_never_writes_deps_log_witness:
  "(\<exists>s'. ProcessNode 5 gap_graph gap_env gap_session (Some 2) = Inr s'
        \<and> deps_log s' = deps_log gap_session)
   \<and> (\<exists>s'. ProcessInputs 5 gap_graph gap_env gap_session [1, 2] = Inr s'
        \<and> deps_log s' = deps_log gap_session)
   \<and> ProcessDepfileDeps gap_env 2 [''b.o'', ''a.h''] [] = (True, [1, 0])"
proof -
  from gap_run_2 obtain s1 where
    s1: "ProcessNode 5 gap_graph gap_env gap_session (Some 2) = Inr s1" ..
  from gap_run_1_2 obtain s2 where
    s2: "ProcessInputs 5 gap_graph gap_env gap_session [1, 2] = Inr s2" ..
  note inst1 = scanner_never_writes_deps_log
               [of 5 gap_graph gap_env gap_session "Some 2" s1 "[1, 2]"]
  note inst2 = scanner_never_writes_deps_log
               [of 5 gap_graph gap_env gap_session None s2 "[1, 2]" 2 "[''b.o'', ''a.h'']" "[]"]
  from inst1 s1 have a: "deps_log s1 = deps_log gap_session" by blast
  from inst2 s2 have b: "deps_log s2 = deps_log gap_session" by blast
  from inst2 have c: "ProcessDepfileDeps gap_env 2 [''b.o'', ''a.h''] [] = (True, [1, 0])"
    by (simp add: gap_env_def)
  from s1 a have "\<exists>s'. ProcessNode 5 gap_graph gap_env gap_session (Some 2) = Inr s'
        \<and> deps_log s' = deps_log gap_session" by (intro exI [of _ s1] conjI)
  moreover from s2 b have "\<exists>s'. ProcessInputs 5 gap_graph gap_env gap_session [1, 2] = Inr s'
        \<and> deps_log s' = deps_log gap_session" by (intro exI [of _ s2] conjI)
  ultimately show ?thesis using c by (intro conjI)
qed

subsection \<open>The reports of a session\<close>














section \<open>PrintStats\<close>

lemma PrintStats_with_gaps:
  "HadMissingDeps s \<Longrightarrow>
     PrintStats s =
       ''Processed '' @ show_nat (card (seen s)) @ '' nodes.\<newline>''
       @ ''Error: There are '' @ show_int (missing_dep_path_count s)
       @ '' missing dependency paths.\<newline>''
       @ show_nat (card (nodes_missing_deps s)) @ '' targets had depfile dependencies on ''
       @ show_nat (card (generated_nodes s)) @ '' distinct generated inputs (from ''
       @ show_nat (card (generator_rules s))
       @ '' rules)  without a non-depfile dep path to the generator.\<newline>''
       @ ''There might be build flakiness if any of the targets listed above are built alone, or not late enough, in a clean output directory.\<newline>''"
  by (simp add: PrintStats_def)

text \<open>
  C8.  What \<open>PrintStats\<close> writes after the real-gap scenario.  The second line
  of the error has two spaces between "rules)" and "without": line 158 ends
  its literal with a space and line 159 begins its literal with another.
\<close>

theorem PrintStats_real_gap:
  "stats_of (ProcessNode 5 gap_graph gap_env gap_session (Some 2)) =
     ''Processed 1 nodes.\<newline>Error: There are 1 missing dependency paths.\<newline>1 targets had depfile dependencies on 1 distinct generated inputs (from 1 rules)  without a non-depfile dep path to the generator.\<newline>There might be build flakiness if any of the targets listed above are built alone, or not late enough, in a clean output directory.\<newline>''"
  by code_simp

section \<open>The stat cache\<close>

text \<open>
  C9.  A second \<open>GetFile\<close> with the same path returns the same pointer and
  leaves the cache as the first call left it; a call for a path that is not
  in the cache adds exactly one entry, for that path; a call for a cached path
  leaves the cache unchanged.
\<close>

theorem GetFile_caching:
  "fst (GetFile blank (snd (GetFile blank c path)) path) = fst (GetFile blank c path)
   \<and> snd (GetFile blank (snd (GetFile blank c path)) path) = snd (GetFile blank c path)
   \<and> (map_of (paths c) (c_str path) = None \<longrightarrow>
        paths (snd (GetFile blank c path))
          = (c_str path, fst (GetFile blank c path)) # paths c
        \<and> map_of (paths (snd (GetFile blank c path)))
          = (map_of (paths c))(c_str path \<mapsto> fst (GetFile blank c path)))
   \<and> (map_of (paths c) (c_str path) \<noteq> None \<longrightarrow> snd (GetFile blank c path) = c)"
  by (auto simp: GetFile_def Let_def split: option.splits)

theorem GetFile_caching_witness:
  "map_of (paths cache0) (c_str ''foo.cc'') = None
   \<and> fst (GetFile blank_stat cache0 ''foo.cc'') = 0
   \<and> fst (GetFile blank_stat (snd (GetFile blank_stat cache0 ''foo.cc'')) ''foo.cc'') = 0
   \<and> paths (snd (GetFile blank_stat cache0 ''foo.cc'')) = [(''foo.cc'', 0)]
   \<and> map_of (paths cache2) (c_str ''bar.cc'') = Some 1
   \<and> snd (GetFile blank_stat cache2 ''bar.cc'') = cache2"
proof -
  have a: "map_of (paths cache0) (c_str ''foo.cc'') = None" by (simp add: cache0_def)
  have b: "fst (GetFile blank_stat cache0 ''foo.cc'') = 0"
    by (simp add: GetFile_def cache0_def)
  have c: "map_of (paths cache2) (c_str ''bar.cc'') = Some 1"
    by (simp add: cache2_def c_str_def)
  have d: "c_str ''foo.cc'' = ''foo.cc''" by (simp add: c_str_def)
  show ?thesis
    using GetFile_caching [of blank_stat cache0 "''foo.cc''"]
      GetFile_caching [of blank_stat cache2 "''bar.cc''"] a b c d
    by (simp add: cache0_def)
qed

lemma spellcheck_loop_inv:
  "(spellcheck_loop ED h path ps min_distance result = result
      \<and> (\<forall>k f. (k, f) \<in> set ps \<longrightarrow> file_node (h f) \<noteq> None
            \<longrightarrow> min_distance \<le> ED k path kAllowReplacements kMaxValidEditDistance))
   \<or> (\<exists>k f. (k, f) \<in> set ps
         \<and> spellcheck_loop ED h path ps min_distance result = Some f
         \<and> file_node (h f) \<noteq> None
         \<and> ED k path kAllowReplacements kMaxValidEditDistance < min_distance
         \<and> (\<forall>k' f'. (k', f') \<in> set ps \<longrightarrow> file_node (h f') \<noteq> None
               \<longrightarrow> ED k path kAllowReplacements kMaxValidEditDistance
                     \<le> ED k' path kAllowReplacements kMaxValidEditDistance))"
proof (induction ps arbitrary: min_distance result)
  case Nil
  then show ?case by simp
next
  case (Cons p ps)
  obtain k0 f0 where p: "p = (k0, f0)" by (cases p)
  let ?d = "\<lambda>k. ED k path kAllowReplacements kMaxValidEditDistance"
  let ?q = "\<lambda>f. file_node (h f) \<noteq> None"
  note IH = Cons.IH
  show ?case
  proof (cases "?d k0 < min_distance \<and> ?q f0")
    case True
    then have step: "spellcheck_loop ED h path (p # ps) min_distance result
                = spellcheck_loop ED h path ps (?d k0) (Some f0)"
      by (simp add: p Let_def)
    from IH [of "?d k0" "Some f0"] show "(spellcheck_loop ED h path (p # ps) min_distance result = result
      \<and> (\<forall>k f. (k, f) \<in> set (p # ps) \<longrightarrow> ?q f \<longrightarrow> min_distance \<le> ?d k))
   \<or> (\<exists>k f. (k, f) \<in> set (p # ps)
         \<and> spellcheck_loop ED h path (p # ps) min_distance result = Some f
         \<and> ?q f \<and> ?d k < min_distance
         \<and> (\<forall>k' f'. (k', f') \<in> set (p # ps) \<longrightarrow> ?q f' \<longrightarrow> ?d k \<le> ?d k'))"
    proof (elim disjE conjE exE)
      assume "spellcheck_loop ED h path ps (?d k0) (Some f0) = Some f0"
        and "\<forall>k f. (k, f) \<in> set ps \<longrightarrow> ?q f \<longrightarrow> ?d k0 \<le> ?d k"
      then have "(k0, f0) \<in> set (p # ps)
         \<and> spellcheck_loop ED h path (p # ps) min_distance result = Some f0
         \<and> ?q f0 \<and> ?d k0 < min_distance
         \<and> (\<forall>k' f'. (k', f') \<in> set (p # ps) \<longrightarrow> ?q f' \<longrightarrow> ?d k0 \<le> ?d k')"
        using True step by (simp add: p)
      then show ?thesis by blast
    next
      fix k f
      assume "(k, f) \<in> set ps" "spellcheck_loop ED h path ps (?d k0) (Some f0) = Some f"
        "?q f" "?d k < ?d k0" "\<forall>k' f'. (k', f') \<in> set ps \<longrightarrow> ?q f' \<longrightarrow> ?d k \<le> ?d k'"
      then have "(k, f) \<in> set (p # ps)
         \<and> spellcheck_loop ED h path (p # ps) min_distance result = Some f
         \<and> ?q f \<and> ?d k < min_distance
         \<and> (\<forall>k' f'. (k', f') \<in> set (p # ps) \<longrightarrow> ?q f' \<longrightarrow> ?d k \<le> ?d k')"
        using True step by (simp add: p)
      then show ?thesis by blast
    qed
  next
    case False
    then have step: "spellcheck_loop ED h path (p # ps) min_distance result
                = spellcheck_loop ED h path ps min_distance result"
      by (auto simp add: p Let_def)
    from IH [of min_distance result] show "(spellcheck_loop ED h path (p # ps) min_distance result = result
      \<and> (\<forall>k f. (k, f) \<in> set (p # ps) \<longrightarrow> ?q f \<longrightarrow> min_distance \<le> ?d k))
   \<or> (\<exists>k f. (k, f) \<in> set (p # ps)
         \<and> spellcheck_loop ED h path (p # ps) min_distance result = Some f
         \<and> ?q f \<and> ?d k < min_distance
         \<and> (\<forall>k' f'. (k', f') \<in> set (p # ps) \<longrightarrow> ?q f' \<longrightarrow> ?d k \<le> ?d k'))"
    proof (elim disjE conjE exE)
      assume "spellcheck_loop ED h path ps min_distance result = result"
        and "\<forall>k f. (k, f) \<in> set ps \<longrightarrow> ?q f \<longrightarrow> min_distance \<le> ?d k"
      then have "spellcheck_loop ED h path (p # ps) min_distance result = result
      \<and> (\<forall>k f. (k, f) \<in> set (p # ps) \<longrightarrow> ?q f \<longrightarrow> min_distance \<le> ?d k)"
        using False step by (auto simp add: p)
      then show ?thesis by blast
    next
      fix k f
      assume "(k, f) \<in> set ps" "spellcheck_loop ED h path ps min_distance result = Some f"
        "?q f" "?d k < min_distance" "\<forall>k' f'. (k', f') \<in> set ps \<longrightarrow> ?q f' \<longrightarrow> ?d k \<le> ?d k'"
      then have "(k, f) \<in> set (p # ps)
         \<and> spellcheck_loop ED h path (p # ps) min_distance result = Some f
         \<and> ?q f \<and> ?d k < min_distance
         \<and> (\<forall>k' f'. (k', f') \<in> set (p # ps) \<longrightarrow> ?q f' \<longrightarrow> ?d k \<le> ?d k')"
        using False step by (auto simp add: p)
      then show ?thesis by blast
    qed
  qed
qed

text \<open>
  C10.  \<open>SpellcheckFile\<close> returns \<open>NULL\<close> exactly when no cached entry has
  a node and a distance of at most 3 from the query; a result it returns is a
  cached entry with a node, at a distance of at most 3 that no cached entry
  with a node undercuts.
\<close>

theorem SpellcheckFile_minimal:
  "(SpellcheckFile ED c path = None \<longleftrightarrow>
      \<not> (\<exists>k f. (k, f) \<in> set (paths c) \<and> file_node (heap c f) \<noteq> None
            \<and> ED k path True 3 \<le> 3))
   \<and> (\<forall>f. SpellcheckFile ED c path = Some f \<longrightarrow>
        (\<exists>k. (k, f) \<in> set (paths c)
           \<and> file_node (heap c f) \<noteq> None
           \<and> ED k path True 3 \<le> 3
           \<and> (\<forall>k' f'. (k', f') \<in> set (paths c) \<longrightarrow> file_node (heap c f') \<noteq> None
                 \<longrightarrow> ED k path True 3 \<le> ED k' path True 3)))"
proof -
  let ?r = "spellcheck_loop ED (heap c) path (paths c) 4 None"
  have r: "SpellcheckFile ED c path = ?r"
    by (simp add: SpellcheckFile_def kMaxValidEditDistance_def)
  from spellcheck_loop_inv [of ED "heap c" path "paths c" 4 None]
  show ?thesis unfolding kAllowReplacements_def kMaxValidEditDistance_def
  proof (elim disjE conjE exE)
    assume none: "?r = None"
      and all: "\<forall>k f. (k, f) \<in> set (paths c) \<longrightarrow> file_node (heap c f) \<noteq> None
         \<longrightarrow> 4 \<le> ED k path True 3"
    have "\<not> (\<exists>k f. (k, f) \<in> set (paths c) \<and> file_node (heap c f) \<noteq> None
            \<and> ED k path True 3 \<le> 3)"
    proof
      assume "\<exists>k f. (k, f) \<in> set (paths c) \<and> file_node (heap c f) \<noteq> None
            \<and> ED k path True 3 \<le> 3"
      then obtain k f where "(k, f) \<in> set (paths c)" "file_node (heap c f) \<noteq> None"
        "ED k path True 3 \<le> 3" by blast
      moreover from this all have "4 \<le> ED k path True 3" by blast
      ultimately show False by simp
    qed
    with none show ?thesis by (simp add: r)
  next
    fix k f
    assume found: "(k, f) \<in> set (paths c)" "?r = Some f"
      "file_node (heap c f) \<noteq> None" "ED k path True 3 < 4"
      "\<forall>k' f'. (k', f') \<in> set (paths c) \<longrightarrow> file_node (heap c f') \<noteq> None
         \<longrightarrow> ED k path True 3 \<le> ED k' path True 3"
    have le: "ED k path True 3 \<le> 3" using found(4) by simp
    have one: "\<exists>k f. (k, f) \<in> set (paths c) \<and> file_node (heap c f) \<noteq> None
            \<and> ED k path True 3 \<le> 3"
      using found(1,3) le by blast
    have two: "\<exists>k. (k, f) \<in> set (paths c)
           \<and> file_node (heap c f) \<noteq> None
           \<and> ED k path True 3 \<le> 3
           \<and> (\<forall>k' f'. (k', f') \<in> set (paths c) \<longrightarrow> file_node (heap c f') \<noteq> None
                 \<longrightarrow> ED k path True 3 \<le> ED k' path True 3)"
      using found(1,3,5) le by blast
    show ?thesis using one two found(2) by (simp add: r)
  qed
qed

theorem SpellcheckFile_minimal_witness:
  "SpellcheckFile capped_mismatches cache2 ''fob.cc'' = Some 0
   \<and> (''foo.cc'', 0) \<in> set (paths cache2)
   \<and> file_node (heap cache2 0) \<noteq> None
   \<and> capped_mismatches ''foo.cc'' ''fob.cc'' True 3 \<le> 3
   \<and> SpellcheckFile capped_mismatches cache2 ''completely_different'' = None"
proof -
  have a: "SpellcheckFile capped_mismatches cache2 ''fob.cc'' = Some 0"
    by (simp add: SpellcheckFile_def cache2_def capped_mismatches_def
          kAllowReplacements_def kMaxValidEditDistance_def)
  have b: "SpellcheckFile capped_mismatches cache2 ''completely_different'' = None"
    by (simp add: SpellcheckFile_def cache2_def capped_mismatches_def
          kAllowReplacements_def kMaxValidEditDistance_def)
  have c: "(''foo.cc'', 0) \<in> set (paths cache2)" "file_node (heap cache2 0) \<noteq> None"
      "capped_mismatches ''foo.cc'' ''fob.cc'' True 3 \<le> 3"
    by (simp_all add: cache2_def capped_mismatches_def)
  from SpellcheckFile_minimal [of capped_mismatches cache2 "''fob.cc''"] a
  have "\<exists>k. (k, 0) \<in> set (paths cache2)" by blast
  with a b c show ?thesis by simp
qed


end
